theory Spec2Isabelle
  imports Main
begin

section \<open>JavaScript values and objects\<close>

text \<open>
  The values a state field can hold. Primitives are compared by value, objects by
  reference (\<open>Ref\<close> is the address of an object). Numbers other than \<open>NaN\<close> are
  modelled by integers, \<open>+0\<close> and \<open>-0\<close>, which \<open>===\<close> does not tell apart, being the one
  number \<open>0\<close>: only the comparison of the values by \<open>===\<close> and \<open>!==\<close> matters to the
  store. So two values of the model are equal when they are \<open>===\<close> or both \<open>NaN\<close>.
\<close>

datatype jsval = Undefined | Null | Bool bool | Num int | NaN | Str string | Ref nat

text \<open>The operator \<open>!==\<close>: \<open>NaN\<close> is different from every value, itself included.\<close>

definition strict_neq :: "jsval \<Rightarrow> jsval \<Rightarrow> bool" where
  "strict_neq a b = (a = NaN \<or> b = NaN \<or> a \<noteq> b)"

text \<open>The truthiness test of \<open>if (v)\<close>.\<close>

fun truthy :: "jsval \<Rightarrow> bool" where
  "truthy Undefined = False"
| "truthy Null = False"
| "truthy (Bool b) = b"
| "truthy (Num n) = (n \<noteq> 0)"
| "truthy NaN = False"
| "truthy (Str s) = (s \<noteq> [])"
| "truthy (Ref a) = True"

text \<open>
  A property name is an array index (\<open>"0"\<close>, \<open>"1"\<close>, ...) or any other string. An
  object is the list of its own enumerable properties in the order in which
  \<open>for (const key in obj)\<close> visits them: the array indices in ascending order first,
  then the other names in the order of their creation. The objects of the store are
  plain records: they have no symbol keys and inherit no enumerable property.
  \<open>wf_object\<close> says that a list is an object in this sense.
\<close>

datatype key = Idx nat | Name string

type_synonym 'v object = "(key \<times> 'v) list"

type_synonym obj = "jsval object"

definition keys :: "'v object \<Rightarrow> key list" where
  "keys ob = map fst ob"

fun precedes :: "key \<Rightarrow> key \<Rightarrow> bool" where
  "precedes (Idx m) (Idx n) = (m < n)"
| "precedes (Idx m) (Name s) = True"
| "precedes (Name s) k = False"

definition wf_object :: "'v object \<Rightarrow> bool" where
  "wf_object ob = (distinct (keys ob) \<and> sorted_wrt (\<lambda>a b. \<not> precedes b a) (keys ob))"

text \<open>\<open>obj[key]\<close>: the value of the property, \<open>undefined\<close> when the object has none.\<close>

definition get_prop :: "obj \<Rightarrow> key \<Rightarrow> jsval" where
  "get_prop ob k = (case map_of ob k of None \<Rightarrow> Undefined | Some v \<Rightarrow> v)"

text \<open>
  \<open>obj[key] = v\<close>: an existing property keeps its place, a new one is created at the
  place the enumeration order gives it.
\<close>

fun update_prop :: "key \<Rightarrow> 'v \<Rightarrow> 'v object \<Rightarrow> 'v object" where
  "update_prop k v [] = []"
| "update_prop k v ((k', v') # r) =
     (if k = k' then (k, v) # r else (k', v') # update_prop k v r)"

fun insert_prop :: "key \<Rightarrow> 'v \<Rightarrow> 'v object \<Rightarrow> 'v object" where
  "insert_prop k v [] = [(k, v)]"
| "insert_prop k v ((k', v') # r) =
     (if precedes k k' then (k, v) # (k', v') # r else (k', v') # insert_prop k v r)"

definition set_prop :: "key \<Rightarrow> 'v \<Rightarrow> 'v object \<Rightarrow> 'v object" where
  "set_prop k v ob = (if k \<in> set (keys ob) then update_prop k v ob else insert_prop k v ob)"

text \<open>The spread \<open>{...target, ...src}\<close> onto an object under construction.\<close>

definition spread :: "'v object \<Rightarrow> 'v object \<Rightarrow> 'v object" where
  "spread target src = fold (\<lambda>(k, v) acc. set_prop k v acc) src target"

section \<open>The reactive cell (rxjs BehaviorSubject)\<close>

text \<open>
  rxjs is a library that the repository imports. The store uses three operations of
  a subject: \<open>getValue\<close>, \<open>next\<close> and \<open>complete\<close>. A subject holds its current value;
  \<open>next\<close> stores the new value and broadcasts it, \<open>complete\<close> terminates the subject.
  What the store does to its subjects is recorded in the trace of the store, one
  event for each call of \<open>next\<close> and of \<open>complete\<close> that the store makes, in the order
  of the calls: an emission of a stream is the call of \<open>next\<close> on its subject.

  The broadcast of \<open>next\<close> calls the callbacks subscribed to the subject before \<open>next\<close>
  returns. In the definitions of this section and of the sections \<open>ComponentStore\<close> and
  \<open>CustomStore\<close> the callbacks only observe: none of them calls a method of the store,
  so that the broadcast leaves the store as it is. The section \<open>Subscribers\<close> has
  the methods with callbacks that may call the store.
\<close>

record 'a subject =
  current :: 'a
  isStopped :: bool

definition BehaviorSubject :: "'a \<Rightarrow> 'a subject" where
  "BehaviorSubject v = \<lparr>current = v, isStopped = False\<rparr>"

definition getValue :: "'a subject \<Rightarrow> 'a" where
  "getValue s = current s"

definition subject_next :: "'a \<Rightarrow> 'a subject \<Rightarrow> 'a subject" where
  "subject_next v s = s\<lparr>current := v\<rparr>"

definition subject_complete :: "'a subject \<Rightarrow> 'a subject" where
  "subject_complete s = s\<lparr>isStopped := True\<rparr>"

datatype event =
    StateNext obj
  | FieldNext key jsval
  | FieldComplete key
  | StateComplete

section \<open>ComponentStore\<close>

text \<open>
  The private members of the class: the snapshot stream \<open>stateSubject$\<close> and the
  table \<open>state\<close> of one subject for each field. \<open>trace\<close> is the sequence of the
  events so far, oldest first. The member \<open>state$\<close> is the read-only view of
  \<open>stateSubject$\<close>. The constructor freezes the table: no method adds a subject to it
  or removes one.
\<close>

record store =
  stateSubject :: "obj subject"
  state :: "jsval subject object"
  trace :: "event list"

datatype exn = TypeError | Thrown jsval

text \<open>
  A call returns the exception it threw, if any, and the store as the call left it:
  an exception does not undo the writes made before it.
\<close>

type_synonym outcome = "exn option \<times> store"

definition getPropAsBehaviourSubject :: "obj \<Rightarrow> key \<Rightarrow> jsval subject" where
  "getPropAsBehaviourSubject st k = BehaviorSubject (get_prop st k)"

definition ComponentStore :: "obj \<Rightarrow> store" where
  "ComponentStore st =
     \<lparr>stateSubject = BehaviorSubject st,
      state = fold (\<lambda>k tbl. set_prop k (getPropAsBehaviourSubject st k) tbl) (keys st) [],
      trace = []\<rparr>"

text \<open>
  \<open>Object.freeze\<close> returns its argument: the getter reads the current snapshot. A
  transition function that writes to the frozen snapshot throws, which is one of the
  ways in which the function can fail.
\<close>

definition frozenState :: "store \<Rightarrow> obj" where
  "frozenState s = getValue (stateSubject s)"

definition stateSubject_next :: "obj \<Rightarrow> store \<Rightarrow> store" where
  "stateSubject_next v s =
     s\<lparr>stateSubject := subject_next v (stateSubject s), trace := trace s @ [StateNext v]\<rparr>"

definition field_next :: "key \<Rightarrow> jsval \<Rightarrow> store \<Rightarrow> store" where
  "field_next k v s =
     s\<lparr>state := map (\<lambda>(k', c). if k' = k then (k', subject_next v c) else (k', c)) (state s),
       trace := trace s @ [FieldNext k v]\<rparr>"

text \<open>
  The loop of \<open>checkAndUpdateState\<close> over the keys of \<open>stateToBeChecked\<close>. Reading
  \<open>this.state[key]\<close> for a key with no subject gives \<open>undefined\<close>, and the call of
  \<open>getValue\<close> on it throws a \<open>TypeError\<close> that ends the loop.
\<close>

fun check_keys :: "obj \<Rightarrow> key list \<Rightarrow> store \<Rightarrow> outcome" where
  "check_keys latestState [] s = (None, s)"
| "check_keys latestState (k # ks) s =
     (let valueOfLatestState = get_prop latestState k in
      case map_of (state s) k of
        None \<Rightarrow> (Some TypeError, s)
      | Some c \<Rightarrow>
          let valueOfOutdatedState = getValue c in
          if strict_neq valueOfLatestState valueOfOutdatedState
          then check_keys latestState ks (field_next k valueOfLatestState s)
          else check_keys latestState ks s)"

definition checkAndUpdateState :: "obj \<Rightarrow> store \<Rightarrow> outcome" where
  "checkAndUpdateState stateToBeChecked s =
     (let latestState = getValue (stateSubject s) in
      check_keys latestState (keys stateToBeChecked) s)"

text \<open>
  The argument of \<open>setState\<close> and \<open>patchState\<close>: an object, or a function of the
  current snapshot. A function returns its result or throws.
\<close>

datatype state_arg = Literal obj | Fn "obj \<Rightarrow> exn + obj"

text \<open>\<open>typeof arg === 'function' ? arg(frozen) : arg\<close>\<close>

definition resolve :: "state_arg \<Rightarrow> obj \<Rightarrow> exn + obj" where
  "resolve arg frozen = (case arg of Fn f \<Rightarrow> f frozen | Literal v \<Rightarrow> Inr v)"

definition setState :: "state_arg \<Rightarrow> store \<Rightarrow> outcome" where
  "setState stateOrSetFn s =
     (case resolve stateOrSetFn (frozenState s) of
        Inl e \<Rightarrow> (Some e, s)
      | Inr updatedState \<Rightarrow>
          checkAndUpdateState updatedState (stateSubject_next updatedState s))"

definition patchState :: "state_arg \<Rightarrow> store \<Rightarrow> outcome" where
  "patchState partialStateOrPatchFn s =
     (let frozen = frozenState s in
      case resolve partialStateOrPatchFn frozen of
        Inl e \<Rightarrow> (Some e, s)
      | Inr partiallyUpdatedState \<Rightarrow>
          checkAndUpdateState partiallyUpdatedState
            (stateSubject_next (spread (spread [] frozen) partiallyUpdatedState) s))"

text \<open>\<open>updater updaterFn\<close> is the callable that \<open>updater(updaterFn)\<close> returns.\<close>

definition updater :: "(obj \<Rightarrow> 'p \<Rightarrow> exn + obj) \<Rightarrow> 'p \<Rightarrow> store \<Rightarrow> outcome" where
  "updater updaterFn payload s =
     (case updaterFn (frozenState s) payload of
        Inl e \<Rightarrow> (Some e, s)
      | Inr updatedState \<Rightarrow>
          checkAndUpdateState updatedState (stateSubject_next updatedState s))"

definition field_complete :: "key \<Rightarrow> store \<Rightarrow> store" where
  "field_complete k s =
     s\<lparr>state := map (\<lambda>(k', c). if k' = k then (k', subject_complete c) else (k', c)) (state s),
       trace := trace s @ [FieldComplete k]\<rparr>"

definition stateSubject_complete :: "store \<Rightarrow> store" where
  "stateSubject_complete s =
     s\<lparr>stateSubject := subject_complete (stateSubject s), trace := trace s @ [StateComplete]\<rparr>"

definition ngOnDestroy :: "store \<Rightarrow> store" where
  "ngOnDestroy s = stateSubject_complete (fold field_complete (keys (state s)) s)"

subsection \<open>Streams combined by select\<close>

text \<open>
  The observables given to \<open>select\<close> and \<open>effect\<close> come from the caller; \<open>'o\<close> is
  their type. What the store does with them is to hand them to \<open>combineLatest\<close>,
  \<open>map\<close>, \<open>of\<close> and \<open>EMPTY\<close> of rxjs.

  \<open>combineLatest\<close> of \<open>n\<close> inputs keeps the latest value of each input. A delivery
  \<open>(i, v)\<close>, the input at position \<open>i\<close> emitting \<open>v\<close>, stores \<open>v\<close>, and the array of
  the latest values is emitted when every input has emitted at least once.
\<close>

definition combineLatest_next ::
  "jsval option list \<Rightarrow> nat \<times> jsval \<Rightarrow> jsval option list \<times> jsval list option" where
  "combineLatest_next values d =
     (case d of (i, v) \<Rightarrow>
        if i < length values
        then (let values' = values[i := Some v] in (values', those values'))
        else (values, None))"




text \<open>\<open>Array.prototype.reduce\<close> with the index as the third argument of the callback.\<close>

fun reduce :: "('a \<Rightarrow> 'b \<Rightarrow> nat \<Rightarrow> 'a) \<Rightarrow> 'a \<Rightarrow> 'b list \<Rightarrow> nat \<Rightarrow> 'a" where
  "reduce f acc [] index = acc"
| "reduce f acc (x # xs) index = reduce f (f acc x index) xs (Suc index)"

text \<open>\<open>xs[index]\<close> used as a property name: out of range it is \<open>undefined\<close>.\<close>

definition key_at :: "key list \<Rightarrow> nat \<Rightarrow> key" where
  "key_at ks index = (if index < length ks then ks ! index else Name ''undefined'')"

subsection \<open>select\<close>

text \<open>
  A function given to \<open>select\<close> is known by what it returns for the table of the
  field subjects (a subject, or something else) and for the latest values of the
  selectors.
\<close>

datatype jsfunction =
  JsFunction (on_table: "jsval subject object \<Rightarrow> exn + jsval subject option")
             (on_values: "jsval list \<Rightarrow> exn + jsval")

text \<open>One argument of \<open>select\<close>: a function, an observable, or another object.\<close>

datatype 'o select_option = Function jsfunction | ObservableArg 'o | Object "'o object"

datatype emission = Value jsval | ViewModel obj

text \<open>
  The observable that \<open>select\<close> returns: the read-only view of a subject, or
  \<open>combineLatest(selectors).pipe(map(f))\<close>.
\<close>

datatype 'o selected =
    AsObservable "jsval subject"
  | CombineLatestMap "'o list" "jsval list \<Rightarrow> exn + emission"

fun observables_of :: "'o select_option list \<Rightarrow> 'o list" where
  "observables_of [] = []"
| "observables_of (ObservableArg ob # r) = ob # observables_of r"
| "observables_of (x # r) = observables_of r"

text \<open>The last argument that is not an observable is taken for the combiner.\<close>

fun selectFn_of :: "'o select_option list \<Rightarrow> 'o select_option option \<Rightarrow> 'o select_option option" where
  "selectFn_of [] found = found"
| "selectFn_of (ObservableArg ob # r) found = selectFn_of r found"
| "selectFn_of (x # r) found = selectFn_of r (Some x)"

definition call_selectFn :: "'o select_option option \<Rightarrow> jsval list \<Rightarrow> exn + emission" where
  "call_selectFn f results =
     (case f of
        Some (Function g) \<Rightarrow>
          (case on_values g results of Inl e \<Rightarrow> Inl e | Inr v \<Rightarrow> Inr (Value v))
      | _ \<Rightarrow> Inl TypeError)"

definition view_model :: "key list \<Rightarrow> jsval list \<Rightarrow> obj" where
  "view_model ks values =
     reduce (\<lambda>vm v index. set_prop (key_at ks index) v (spread [] vm)) [] values 0"

definition select :: "'o select_option list \<Rightarrow> store \<Rightarrow> exn + 'o selected" where
  "select config s =
     (case config of
        Function firstOption # rest \<Rightarrow>
          (case on_table firstOption (state s) of
             Inl e \<Rightarrow> Inl e
           | Inr None \<Rightarrow> Inl TypeError
           | Inr (Some c) \<Rightarrow> Inr (AsObservable c))
      | ObservableArg firstOption # rest \<Rightarrow>
          Inr (CombineLatestMap (observables_of config) (call_selectFn (selectFn_of config None)))
      | Object selectorsObject # rest \<Rightarrow>
          Inr (CombineLatestMap (map snd selectorsObject)
                 (\<lambda>values. Inr (ViewModel (view_model (keys selectorsObject) values))))
      | [] \<Rightarrow>
          Inr (CombineLatestMap [] (\<lambda>values. Inr (ViewModel (view_model [] values)))))"


subsection \<open>effect\<close>

text \<open>
  The argument of the callable that \<open>effect\<close> returns: an observable or another
  value; a call without argument passes \<open>undefined\<close>. The source handed to the effect
  is that observable, \<open>of(value)\<close> or \<open>EMPTY\<close>. The result of \<open>effect\<close> is the
  observable that \<open>effectFn\<close> returns for the source, which the store subscribes to
  until the owner is destroyed.
\<close>

datatype 'o effect_arg = ObservableInstance 'o | StaticValue jsval

datatype 'o source = Given 'o | Of jsval | EMPTY

definition effect :: "('o source \<Rightarrow> 'r) \<Rightarrow> 'o effect_arg \<Rightarrow> 'r" where
  "effect effectFn staticValueOrSource =
     (let source =
        (case staticValueOrSource of
           ObservableInstance ob \<Rightarrow> Given ob
         | StaticValue v \<Rightarrow> if truthy v then Of v else EMPTY)
      in effectFn source)"

text \<open>
  The values a source emits when it is subscribed: \<open>of(v)\<close> emits \<open>v\<close> once and
  completes, \<open>EMPTY\<close> completes without a value, and a given observable emits what
  \<open>given\<close> says.
\<close>

fun source_values :: "('o \<Rightarrow> jsval list) \<Rightarrow> 'o source \<Rightarrow> jsval list" where
  "source_values given (Given ob) = given ob"
| "source_values given (Of v) = [v]"
| "source_values given EMPTY = []"

section \<open>CustomStore\<close>

text \<open>The second class of the repository, member by member.\<close>

definition CustomStore_getPropAsBehaviourSubject :: "obj \<Rightarrow> key \<Rightarrow> jsval subject" where
  "CustomStore_getPropAsBehaviourSubject st k = BehaviorSubject (get_prop st k)"

definition CustomStore :: "obj \<Rightarrow> store" where
  "CustomStore st =
     \<lparr>stateSubject = BehaviorSubject st,
      state = fold (\<lambda>k tbl. set_prop k (CustomStore_getPropAsBehaviourSubject st k) tbl)
                (keys st) [],
      trace = []\<rparr>"

definition CustomStore_ngOnDestroy :: "store \<Rightarrow> store" where
  "CustomStore_ngOnDestroy s = stateSubject_complete (fold field_complete (keys (state s)) s)"

definition CustomStore_frozenState :: "store \<Rightarrow> obj" where
  "CustomStore_frozenState s = getValue (stateSubject s)"

fun CustomStore_check_keys :: "obj \<Rightarrow> key list \<Rightarrow> store \<Rightarrow> outcome" where
  "CustomStore_check_keys latestState [] s = (None, s)"
| "CustomStore_check_keys latestState (k # ks) s =
     (let valueOfLatestState = get_prop latestState k in
      case map_of (state s) k of
        None \<Rightarrow> (Some TypeError, s)
      | Some c \<Rightarrow>
          let valueOfOutdatedState = getValue c in
          if strict_neq valueOfLatestState valueOfOutdatedState
          then CustomStore_check_keys latestState ks (field_next k valueOfLatestState s)
          else CustomStore_check_keys latestState ks s)"

definition CustomStore_checkAndUpdateState :: "obj \<Rightarrow> store \<Rightarrow> outcome" where
  "CustomStore_checkAndUpdateState stateToBeChecked s =
     (let latestState = getValue (stateSubject s) in
      CustomStore_check_keys latestState (keys stateToBeChecked) s)"

definition CustomStore_updater :: "(obj \<Rightarrow> 'p \<Rightarrow> exn + obj) \<Rightarrow> 'p \<Rightarrow> store \<Rightarrow> outcome" where
  "CustomStore_updater updaterFn payload s =
     (case updaterFn (CustomStore_frozenState s) payload of
        Inl e \<Rightarrow> (Some e, s)
      | Inr updatedState \<Rightarrow>
          CustomStore_checkAndUpdateState updatedState (stateSubject_next updatedState s))"

definition CustomStore_select :: "jsfunction \<Rightarrow> store \<Rightarrow> exn + 'o selected" where
  "CustomStore_select selectFn s =
     (case on_table selectFn (state s) of
        Inl e \<Rightarrow> Inl e
      | Inr None \<Rightarrow> Inl TypeError
      | Inr (Some c) \<Rightarrow> Inr (AsObservable c))"

definition CustomStore_setState :: "state_arg \<Rightarrow> store \<Rightarrow> outcome" where
  "CustomStore_setState stateOrSetFn s =
     (case resolve stateOrSetFn (CustomStore_frozenState s) of
        Inl e \<Rightarrow> (Some e, s)
      | Inr updatedState \<Rightarrow>
          CustomStore_checkAndUpdateState updatedState (stateSubject_next updatedState s))"

definition CustomStore_patchState :: "state_arg \<Rightarrow> store \<Rightarrow> outcome" where
  "CustomStore_patchState partialStateOrPatchFn s =
     (let frozen = CustomStore_frozenState s in
      case resolve partialStateOrPatchFn frozen of
        Inl e \<Rightarrow> (Some e, s)
      | Inr partiallyUpdatedState \<Rightarrow>
          CustomStore_checkAndUpdateState partiallyUpdatedState
            (stateSubject_next (spread (spread [] frozen) partiallyUpdatedState) s))"

section \<open>Callers of the two stores\<close>

text \<open>
  The operations that both classes have, as requests of a caller, with what the
  caller gets back: the exception of a mutation if it threw, the observable of a
  selection, the snapshot that \<open>state$\<close> delivers to a new subscriber.
\<close>

datatype operation =
    DoSetState state_arg
  | DoPatchState state_arg
  | DoUpdate "obj \<Rightarrow> jsval \<Rightarrow> exn + obj" jsval
  | DoSelect jsfunction
  | ReadState
  | Destroy

datatype 'o response =
    Returned "exn option"
  | Selected "exn + 'o selected"
  | Snapshot obj

fun ComponentStore_call :: "operation \<Rightarrow> store \<Rightarrow> 'o response \<times> store" where
  "ComponentStore_call (DoSetState a) s = (case setState a s of (r, s') \<Rightarrow> (Returned r, s'))"
| "ComponentStore_call (DoPatchState a) s = (case patchState a s of (r, s') \<Rightarrow> (Returned r, s'))"
| "ComponentStore_call (DoUpdate fn p) s = (case updater fn p s of (r, s') \<Rightarrow> (Returned r, s'))"
| "ComponentStore_call (DoSelect f) s = (Selected (select [Function f] s), s)"
| "ComponentStore_call ReadState s = (Snapshot (getValue (stateSubject s)), s)"
| "ComponentStore_call Destroy s = (Returned None, ngOnDestroy s)"

fun CustomStore_call :: "operation \<Rightarrow> store \<Rightarrow> 'o response \<times> store" where
  "CustomStore_call (DoSetState a) s =
     (case CustomStore_setState a s of (r, s') \<Rightarrow> (Returned r, s'))"
| "CustomStore_call (DoPatchState a) s =
     (case CustomStore_patchState a s of (r, s') \<Rightarrow> (Returned r, s'))"
| "CustomStore_call (DoUpdate fn p) s =
     (case CustomStore_updater fn p s of (r, s') \<Rightarrow> (Returned r, s'))"
| "CustomStore_call (DoSelect f) s = (Selected (CustomStore_select f s), s)"
| "CustomStore_call ReadState s = (Snapshot (getValue (stateSubject s)), s)"
| "CustomStore_call Destroy s = (Returned None, CustomStore_ngOnDestroy s)"

fun calls ::
  "(operation \<Rightarrow> store \<Rightarrow> 'o response \<times> store) \<Rightarrow> operation list \<Rightarrow> store
     \<Rightarrow> 'o response list \<times> store" where
  "calls call [] s = ([], s)"
| "calls call (x # xs) s =
     (case call x s of (r, s') \<Rightarrow> (case calls call xs s' of (rs, s'') \<Rightarrow> (r # rs, s'')))"

section \<open>Observing a store\<close>

text \<open>The value the subject of field \<open>k\<close> holds, when the table has a subject for \<open>k\<close>.\<close>

definition cell_value :: "store \<Rightarrow> key \<Rightarrow> jsval option" where
  "cell_value s k = map_option getValue (map_of (state s) k)"

definition snapshot :: "store \<Rightarrow> obj" where
  "snapshot s = getValue (stateSubject s)"

text \<open>The events of a call that took the store from \<open>s\<close> to \<open>s'\<close>.\<close>

definition emitted :: "store \<Rightarrow> store \<Rightarrow> event list" where
  "emitted s s' = drop (length (trace s)) (trace s')"

text \<open>The values that the subject of field \<open>f\<close> emits in a sequence of events.\<close>

fun field_emissions :: "key \<Rightarrow> event list \<Rightarrow> jsval list" where
  "field_emissions f [] = []"
| "field_emissions f (FieldNext k v # es) =
     (if k = f then v # field_emissions f es else field_emissions f es)"
| "field_emissions f (e # es) = field_emissions f es"

fun is_FieldNext :: "event \<Rightarrow> bool" where
  "is_FieldNext (FieldNext k v) = True"
| "is_FieldNext e = False"

text \<open>
  The three mutation primitives as one type of requests, and a caller that makes a
  sequence of them, going on after a call that threw.
\<close>

datatype mutation =
    SetState state_arg
  | PatchState state_arg
  | Update "obj \<Rightarrow> jsval \<Rightarrow> exn + obj" jsval

fun apply_mutation :: "mutation \<Rightarrow> store \<Rightarrow> outcome" where
  "apply_mutation (SetState a) s = setState a s"
| "apply_mutation (PatchState a) s = patchState a s"
| "apply_mutation (Update fn p) s = updater fn p s"

text \<open>The update object that the mutation computes in store \<open>s\<close>, or the exception.\<close>

fun update_of :: "mutation \<Rightarrow> store \<Rightarrow> exn + obj" where
  "update_of (SetState a) s = resolve a (frozenState s)"
| "update_of (PatchState a) s = resolve a (frozenState s)"
| "update_of (Update fn p) s = fn (frozenState s) p"

fun run :: "mutation list \<Rightarrow> store \<Rightarrow> store" where
  "run [] s = s"
| "run (m # ms) s = run ms (snd (apply_mutation m s))"

text \<open>The stores after each mutation of a sequence.\<close>

fun states_after :: "mutation list \<Rightarrow> store \<Rightarrow> store list" where
  "states_after [] s = []"
| "states_after (m # ms) s =
     (let s' = snd (apply_mutation m s) in s' # states_after ms s')"

text \<open>
  The candidate fields that reconciliation visits: the keys of the update in their
  order, up to the first one that has no subject in the table.
\<close>

definition reached :: "obj \<Rightarrow> store \<Rightarrow> key list" where
  "reached cand s = takeWhile (\<lambda>k. k \<in> set (keys (state s))) (keys cand)"

text \<open>The snapshot that a mutation publishes when it has computed the update \<open>u\<close>.\<close>

definition new_snapshot :: "mutation \<Rightarrow> store \<Rightarrow> obj \<Rightarrow> obj" where
  "new_snapshot m s u =
     (case m of PatchState a \<Rightarrow> spread (spread [] (frozenState s)) u | _ \<Rightarrow> u)"

text \<open>
  The consistency of the two representations: every subject of the table holds the
  value that the current snapshot has for its field.
\<close>

definition consistent :: "store \<Rightarrow> bool" where
  "consistent s = (\<forall>f\<in>set (keys (state s)). cell_value s f = Some (get_prop (snapshot s) f))"

text \<open>
  Two conditions on a sequence of mutations made on store \<open>s\<close>, for a list \<open>ks\<close> of
  field names. \<open>mentions_only\<close>: every update that is computed is an object whose
  fields are among \<open>ks\<close>. \<open>keeps_all\<close>: every update of \<open>setState\<close> and of an updater,
  which replaces the snapshot, has all the fields \<open>ks\<close>.
\<close>

fun mentions_only :: "key list \<Rightarrow> mutation list \<Rightarrow> store \<Rightarrow> bool" where
  "mentions_only ks [] s = True"
| "mentions_only ks (m # ms) s =
     ((case update_of m s of
         Inl e \<Rightarrow> True
       | Inr u \<Rightarrow> wf_object u \<and> set (keys u) \<subseteq> set ks) \<and>
      mentions_only ks ms (snd (apply_mutation m s)))"

fun replaces :: "mutation \<Rightarrow> bool" where
  "replaces (PatchState a) = False"
| "replaces m = True"

fun keeps_all :: "key list \<Rightarrow> mutation list \<Rightarrow> store \<Rightarrow> bool" where
  "keeps_all ks [] s = True"
| "keeps_all ks (m # ms) s =
     ((case update_of m s of
         Inl e \<Rightarrow> True
       | Inr u \<Rightarrow> \<not> replaces m \<or> set ks \<subseteq> set (keys u)) \<and>
      keeps_all ks ms (snd (apply_mutation m s)))"

text \<open>
  The consistency on the fields \<open>fs\<close>, and what every store of a run satisfies when
  the updates mention only the fields \<open>ks\<close>.
\<close>

definition consistent_on :: "key list \<Rightarrow> store \<Rightarrow> bool" where
  "consistent_on fs s = (\<forall>f\<in>set fs. cell_value s f = Some (get_prop (snapshot s) f))"

definition run_inv :: "key list \<Rightarrow> store \<Rightarrow> bool" where
  "run_inv ks s =
     (distinct (keys (snapshot s)) \<and> set (keys (state s)) = set ks \<and>
      set (keys (snapshot s)) \<subseteq> set ks \<and> consistent_on (keys (snapshot s)) s)"


definition latest_values :: "jsval option list \<Rightarrow> (nat \<times> jsval) list \<Rightarrow> jsval option list" where
  "latest_values vals ds = fold (\<lambda>d vs. fst (combineLatest_next vs d)) ds vals"

section \<open>Subscribers\<close>

text \<open>
  \<open>next\<close> of a subject that is not stopped calls the callbacks subscribed to it, one
  after the other, before it returns, and a callback may call the methods of the
  store: such a call is made inside the mutation that emitted, while the loop of
  \<open>checkAndUpdateState\<close> is running with the \<open>latestState\<close> that it read before the
  loop. \<open>state_subscribers subs v\<close> is what the callbacks subscribed to \<open>state$\<close> do to
  the store when it emits \<open>v\<close>, and \<open>field_subscribers subs k v\<close> what the callbacks
  subscribed to the subject of field \<open>k\<close> do when it emits \<open>v\<close>. An exception thrown in
  a callback does not reach the caller of \<open>next\<close>: rxjs reports it later.
\<close>

record subscribers =
  state_subscribers :: "obj \<Rightarrow> store \<Rightarrow> store"
  field_subscribers :: "key \<Rightarrow> jsval \<Rightarrow> store \<Rightarrow> store"

definition stateSubject_next_notify :: "subscribers \<Rightarrow> obj \<Rightarrow> store \<Rightarrow> store" where
  "stateSubject_next_notify subs v s =
     (if isStopped (stateSubject s) then stateSubject_next v s
      else state_subscribers subs v (stateSubject_next v s))"

definition field_next_notify :: "subscribers \<Rightarrow> key \<Rightarrow> jsval \<Rightarrow> store \<Rightarrow> store" where
  "field_next_notify subs k v s =
     (case map_of (state s) k of
        None \<Rightarrow> field_next k v s
      | Some c \<Rightarrow>
          if isStopped c then field_next k v s
          else field_subscribers subs k v (field_next k v s))"

text \<open>
  The methods of \<open>ComponentStore\<close> with the callbacks: the same code, \<open>next\<close> running the
  subscribers. The loop keeps the \<open>latestState\<close> it was given, and reads
  \<open>this.state[key]\<close> in the store as the callbacks left it.
\<close>

fun check_keys_notify :: "subscribers \<Rightarrow> obj \<Rightarrow> key list \<Rightarrow> store \<Rightarrow> outcome" where
  "check_keys_notify subs latestState [] s = (None, s)"
| "check_keys_notify subs latestState (k # ks) s =
     (let valueOfLatestState = get_prop latestState k in
      case map_of (state s) k of
        None \<Rightarrow> (Some TypeError, s)
      | Some c \<Rightarrow>
          let valueOfOutdatedState = getValue c in
          if strict_neq valueOfLatestState valueOfOutdatedState
          then check_keys_notify subs latestState ks
                 (field_next_notify subs k valueOfLatestState s)
          else check_keys_notify subs latestState ks s)"

definition checkAndUpdateState_notify :: "subscribers \<Rightarrow> obj \<Rightarrow> store \<Rightarrow> outcome" where
  "checkAndUpdateState_notify subs stateToBeChecked s =
     (let latestState = getValue (stateSubject s) in
      check_keys_notify subs latestState (keys stateToBeChecked) s)"

definition setState_notify :: "subscribers \<Rightarrow> state_arg \<Rightarrow> store \<Rightarrow> outcome" where
  "setState_notify subs stateOrSetFn s =
     (case resolve stateOrSetFn (frozenState s) of
        Inl e \<Rightarrow> (Some e, s)
      | Inr updatedState \<Rightarrow>
          checkAndUpdateState_notify subs updatedState
            (stateSubject_next_notify subs updatedState s))"

definition patchState_notify :: "subscribers \<Rightarrow> state_arg \<Rightarrow> store \<Rightarrow> outcome" where
  "patchState_notify subs partialStateOrPatchFn s =
     (let frozen = frozenState s in
      case resolve partialStateOrPatchFn frozen of
        Inl e \<Rightarrow> (Some e, s)
      | Inr partiallyUpdatedState \<Rightarrow>
          checkAndUpdateState_notify subs partiallyUpdatedState
            (stateSubject_next_notify subs
               (spread (spread [] frozen) partiallyUpdatedState) s))"

definition updater_notify ::
  "subscribers \<Rightarrow> (obj \<Rightarrow> 'p \<Rightarrow> exn + obj) \<Rightarrow> 'p \<Rightarrow> store \<Rightarrow> outcome" where
  "updater_notify subs updaterFn payload s =
     (case updaterFn (frozenState s) payload of
        Inl e \<Rightarrow> (Some e, s)
      | Inr updatedState \<Rightarrow>
          checkAndUpdateState_notify subs updatedState
            (stateSubject_next_notify subs updatedState s))"

text \<open>
  The caller of the section \<open>Observing a store\<close> on a store with callbacks: each
  mutation of the sequence is started when the one before it has returned.
\<close>

fun apply_mutation_notify :: "subscribers \<Rightarrow> mutation \<Rightarrow> store \<Rightarrow> outcome" where
  "apply_mutation_notify subs (SetState a) s = setState_notify subs a s"
| "apply_mutation_notify subs (PatchState a) s = patchState_notify subs a s"
| "apply_mutation_notify subs (Update fn p) s = updater_notify subs fn p s"

fun run_notify :: "subscribers \<Rightarrow> mutation list \<Rightarrow> store \<Rightarrow> store" where
  "run_notify subs [] s = s"
| "run_notify subs (m # ms) s = run_notify subs ms (snd (apply_mutation_notify subs m s))"

fun states_after_notify :: "subscribers \<Rightarrow> mutation list \<Rightarrow> store \<Rightarrow> store list" where
  "states_after_notify subs [] s = []"
| "states_after_notify subs (m # ms) s =
     (let s' = snd (apply_mutation_notify subs m s) in s' # states_after_notify subs ms s')"

fun mentions_only_notify ::
  "subscribers \<Rightarrow> key list \<Rightarrow> mutation list \<Rightarrow> store \<Rightarrow> bool" where
  "mentions_only_notify subs ks [] s = True"
| "mentions_only_notify subs ks (m # ms) s =
     ((case update_of m s of
         Inl e \<Rightarrow> True
       | Inr u \<Rightarrow> wf_object u \<and> set (keys u) \<subseteq> set ks) \<and>
      mentions_only_notify subs ks ms (snd (apply_mutation_notify subs m s)))"

fun keeps_all_notify ::
  "subscribers \<Rightarrow> key list \<Rightarrow> mutation list \<Rightarrow> store \<Rightarrow> bool" where
  "keeps_all_notify subs ks [] s = True"
| "keeps_all_notify subs ks (m # ms) s =
     ((case update_of m s of
         Inl e \<Rightarrow> True
       | Inr u \<Rightarrow> \<not> replaces m \<or> set ks \<subseteq> set (keys u)) \<and>
      keeps_all_notify subs ks ms (snd (apply_mutation_notify subs m s)))"

text \<open>
  The callbacks only observe: whatever they receive, they leave the store as it is.
  No mutation is then started from inside a subscriber.
\<close>

definition observe_only :: "subscribers \<Rightarrow> bool" where
  "observe_only subs =
     ((\<forall>v s. state_subscribers subs v s = s) \<and> (\<forall>k v s. field_subscribers subs k v s = s))"

text \<open>The definitions that evaluate a call on a given store.\<close>

lemmas store_defs = ComponentStore_def getPropAsBehaviourSubject_def BehaviorSubject_def
  setState_def patchState_def updater_def resolve_def frozenState_def checkAndUpdateState_def
  stateSubject_next_def field_next_def getValue_def subject_next_def keys_def set_prop_def
  spread_def get_prop_def strict_neq_def cell_value_def snapshot_def emitted_def Let_def

lemmas notify_defs = stateSubject_next_notify_def field_next_notify_def
  checkAndUpdateState_notify_def setState_notify_def patchState_notify_def updater_notify_def

section \<open>Properties of objects\<close>

lemma keys_Nil [simp]: "keys [] = []"
  by (simp add: keys_def)

lemma keys_Cons [simp]: "keys (p # ob) = fst p # keys ob"
  by (simp add: keys_def)

lemma keys_update_prop [simp]: "keys (update_prop k v ob) = keys ob"
  by (induction ob) auto

lemma set_keys_insert_prop [simp]: "set (keys (insert_prop k v ob)) = insert k (set (keys ob))"
proof (induction ob)
  case Nil
  show ?case by simp
next
  case (Cons p ob)
  obtain k' v' where p: "p = (k', v')" by (cases p)
  show ?case
  proof (cases "precedes k k'")
    case True
    then show ?thesis by (simp add: p)
  next
    case False
    then show ?thesis using Cons.IH by (simp add: p insert_commute)
  qed
qed

lemma set_keys_set_prop [simp]: "set (keys (set_prop k v ob)) = insert k (set (keys ob))"
  by (auto simp: set_prop_def)

lemma map_of_update_prop:
  "k \<in> set (keys ob) \<Longrightarrow> map_of (update_prop k v ob) x = (if x = k then Some v else map_of ob x)"
  by (induction ob) auto

lemma map_of_insert_prop:
  "k \<notin> set (keys ob) \<Longrightarrow> map_of (insert_prop k v ob) x = (if x = k then Some v else map_of ob x)"
  by (induction ob) auto

lemma map_of_set_prop [simp]: "map_of (set_prop k v ob) = (map_of ob)(k \<mapsto> v)"
  by (rule ext) (simp add: set_prop_def map_of_update_prop map_of_insert_prop)

lemma distinct_insert_prop:
  "k \<notin> set (keys ob) \<Longrightarrow> distinct (keys ob) \<Longrightarrow> distinct (keys (insert_prop k v ob))"
proof (induction ob)
  case Nil
  then show ?case by simp
next
  case (Cons p ob)
  obtain k' v' where p: "p = (k', v')" by (cases p)
  show ?case
  proof (cases "precedes k k'")
    case True
    then show ?thesis using Cons.prems by (simp add: p)
  next
    case False
    have "k' \<noteq> k" using Cons.prems by (auto simp: p)
    then show ?thesis using False Cons by (simp add: p)
  qed
qed

lemma distinct_set_prop [simp]: "distinct (keys ob) \<Longrightarrow> distinct (keys (set_prop k v ob))"
  by (simp add: set_prop_def distinct_insert_prop)

lemma set_keys_spread [simp]: "set (keys (spread t src)) = set (keys t) \<union> set (keys src)"
  unfolding spread_def
  by (induction src arbitrary: t) auto

lemma distinct_spread [simp]: "distinct (keys t) \<Longrightarrow> distinct (keys (spread t src))"
  unfolding spread_def
  by (induction src arbitrary: t) auto

lemma map_of_spread:
  "distinct (keys src) \<Longrightarrow> map_of (spread t src) = map_of t ++ map_of src"
  unfolding spread_def
proof (induction src arbitrary: t)
  case Nil
  then show ?case by simp
next
  case (Cons a src)
  obtain k v where a: "a = (k, v)" by (cases a)
  from Cons.prems have k: "k \<notin> dom (map_of src)" and d: "distinct (keys src)"
    by (auto simp: a keys_def dom_map_of_conv_image_fst)
  have "map_of (fold (\<lambda>(k, v) acc. set_prop k v acc) (a # src) t)
        = map_of (fold (\<lambda>(k, v) acc. set_prop k v acc) src (set_prop k v t))"
    by (simp add: a)
  also have "\<dots> = (map_of t)(k \<mapsto> v) ++ map_of src"
    using Cons.IH[OF d, of "set_prop k v t"] by (simp only: map_of_set_prop)
  also have "\<dots> = map_of t ++ (map_of src)(k \<mapsto> v)"
  proof (rule ext)
    fix x
    from k have "map_of src k = None" by (simp add: domIff)
    then show "((map_of t)(k \<mapsto> v) ++ map_of src) x = (map_of t ++ (map_of src)(k \<mapsto> v)) x"
      by (cases "x = k") (simp_all add: map_add_def split: option.splits)
  qed
  also have "\<dots> = map_of t ++ map_of (a # src)"
    by (simp only: a map_of.simps fst_conv snd_conv)
  finally show ?case .
qed

lemma map_of_spread_notin:
  "k \<notin> set (keys src) \<Longrightarrow> map_of (spread t src) k = map_of t k"
  unfolding spread_def
  by (induction src arbitrary: t) auto

lemma map_of_eq_None_keys: "map_of tbl k = None \<longleftrightarrow> k \<notin> set (keys tbl)"
  by (simp add: keys_def map_of_eq_None_iff)

lemma get_prop_spread:
  "distinct (keys a) \<Longrightarrow> distinct (keys b) \<Longrightarrow>
   get_prop (spread (spread [] a) b) k = (if k \<in> set (keys b) then get_prop b k else get_prop a k)"
proof -
  assume a: "distinct (keys a)" and b: "distinct (keys b)"
  have m: "map_of (spread (spread [] a) b) k =
      (case map_of b k of None \<Rightarrow> map_of a k | Some v \<Rightarrow> Some v)"
    by (simp add: map_of_spread[OF b] map_of_spread[OF a] map_add_def)
  show ?thesis
  proof (cases "map_of b k")
    case None
    then have "k \<notin> set (keys b)" using map_of_eq_None_keys[of b k] by simp
    then show ?thesis using None m by (simp add: get_prop_def)
  next
    case (Some v)
    then have "k \<in> set (keys b)" using map_of_eq_None_keys[of b k] by simp
    then show ?thesis using Some m by (simp add: get_prop_def)
  qed
qed

lemma get_prop_spread_notin:
  "distinct (keys a) \<Longrightarrow> k \<notin> set (keys b) \<Longrightarrow>
   get_prop (spread (spread [] a) b) k = get_prop a k"
  by (simp add: get_prop_def map_of_spread_notin map_of_spread)

lemma map_of_fold_set_prop:
  "map_of (fold (\<lambda>k tbl. set_prop k (g k) tbl) ks acc) f =
     (if f \<in> set ks then Some (g f) else map_of acc f)"
  by (induction ks arbitrary: acc) auto

lemma set_keys_fold_set_prop:
  "set (keys (fold (\<lambda>k tbl. set_prop k (g k) tbl) ks acc)) = set ks \<union> set (keys acc)"
  by (induction ks arbitrary: acc) auto

lemma distinct_fold_set_prop:
  "distinct (keys acc) \<Longrightarrow> distinct (keys (fold (\<lambda>k tbl. set_prop k (g k) tbl) ks acc))"
  by (induction ks arbitrary: acc) auto

section \<open>Properties of the reconciliation loop\<close>

lemma stateSubject_field_next [simp]: "stateSubject (field_next k v s) = stateSubject s"
  by (simp add: field_next_def)

lemma trace_field_next [simp]: "trace (field_next k v s) = trace s @ [FieldNext k v]"
  by (simp add: field_next_def)

lemma keys_map_cells [simp]:
  "keys (map (\<lambda>(k', c). if k' = k then (k', g c) else (k', c)) tbl) = keys tbl"
  by (induction tbl) auto

lemma map_of_map_cells:
  "map_of (map (\<lambda>(k', c). if k' = k then (k', g c) else (k', c)) tbl) f =
     (if f = k then map_option g (map_of tbl f) else map_of tbl f)"
  by (induction tbl) auto

lemma keys_state_field_next [simp]: "keys (state (field_next k v s)) = keys (state s)"
  by (simp add: field_next_def)

lemma cell_value_field_next:
  "cell_value (field_next k v s) f =
     (if f = k then map_option (\<lambda>c. v) (map_of (state s) f) else cell_value s f)"
  by (simp add: cell_value_def field_next_def map_of_map_cells getValue_def subject_next_def
      option.map_comp comp_def)

lemma cell_value_None: "cell_value s k = None \<longleftrightarrow> k \<notin> set (keys (state s))"
  by (simp add: cell_value_def map_of_eq_None_keys)

lemma stateSubject_check_keys [simp]:
  "stateSubject (snd (check_keys L ks s)) = stateSubject s"
  by (induction ks arbitrary: s) (auto simp: Let_def split: option.splits)

lemma keys_state_check_keys [simp]:
  "keys (state (snd (check_keys L ks s))) = keys (state s)"
  by (induction ks arbitrary: s) (auto simp: Let_def split: option.splits)

lemma fst_check_keys:
  "fst (check_keys L ks s) = (if set ks \<subseteq> set (keys (state s)) then None else Some TypeError)"
proof (induction ks arbitrary: s)
  case Nil
  then show ?case by simp
next
  case (Cons k ks)
  show ?case
  proof (cases "map_of (state s) k")
    case None
    then have "k \<notin> set (keys (state s))"
      using map_of_eq_None_keys[of "state s" k] by simp
    then show ?thesis using None by simp
  next
    case (Some c)
    then have "k \<in> set (keys (state s))"
      using map_of_eq_None_keys[of "state s" k] by simp
    then show ?thesis using Some Cons.IH by (simp add: Let_def)
  qed
qed

lemma cell_value_check_keys:
  "cell_value (snd (check_keys L ks s)) f =
     (if f \<in> set (takeWhile (\<lambda>k. k \<in> set (keys (state s))) ks)
      then Some (get_prop L f) else cell_value s f)"
proof (induction ks arbitrary: s)
  case Nil
  then show ?case by simp
next
  case (Cons k ks)
  show ?case
  proof (cases "map_of (state s) k")
    case None
    then have "k \<notin> set (keys (state s))"
      using map_of_eq_None_keys[of "state s" k] by simp
    then show ?thesis using None by simp
  next
    case (Some c)
    then have k: "k \<in> set (keys (state s))"
      using map_of_eq_None_keys[of "state s" k] by simp
    show ?thesis
    proof (cases "strict_neq (get_prop L k) (getValue c)")
      case True
      then show ?thesis using Some k Cons.IH[of "field_next k (get_prop L k) s"]
        by (auto simp: Let_def cell_value_field_next)
    next
      case False
      then have "getValue c = get_prop L k" by (auto simp: strict_neq_def)
      then have "cell_value s k = Some (get_prop L k)"
        using Some by (simp add: cell_value_def)
      then show ?thesis using Some k False Cons.IH[of s]
        by (auto simp: Let_def)
    qed
  qed
qed

lemma trace_check_keys:
  "\<exists>evs. trace (snd (check_keys L ks s)) = trace s @ evs \<and> (\<forall>e\<in>set evs. is_FieldNext e)"
proof (induction ks arbitrary: s)
  case Nil
  then show ?case by simp
next
  case (Cons k ks)
  show ?case
  proof (cases "map_of (state s) k")
    case None
    then show ?thesis by simp
  next
    case (Some c)
    show ?thesis
    proof (cases "strict_neq (get_prop L k) (getValue c)")
      case True
      obtain evs where "trace (snd (check_keys L ks (field_next k (get_prop L k) s)))
          = trace (field_next k (get_prop L k) s) @ evs" "\<forall>e\<in>set evs. is_FieldNext e"
        using Cons.IH by blast
      then show ?thesis using Some True
        by (intro exI[of _ "FieldNext k (get_prop L k) # evs"]) (simp add: Let_def)
    next
      case False
      then show ?thesis using Some Cons.IH[of s] by (simp add: Let_def)
    qed
  qed
qed

lemma field_emissions_append [simp]:
  "field_emissions f (xs @ ys) = field_emissions f xs @ field_emissions f ys"
  by (induction f xs rule: field_emissions.induct) auto

lemma field_emissions_check_keys:
  "distinct ks \<Longrightarrow>
   \<exists>evs. trace (snd (check_keys L ks s)) = trace s @ evs \<and>
     (\<forall>f. field_emissions f evs =
        (case cell_value s f of
           None \<Rightarrow> []
         | Some cv \<Rightarrow>
             if f \<in> set (takeWhile (\<lambda>k. k \<in> set (keys (state s))) ks) \<and> strict_neq (get_prop L f) cv
             then [get_prop L f] else []))"
proof (induction ks arbitrary: s)
  case Nil
  then show ?case by (auto split: option.splits)
next
  case (Cons k ks)
  then have d: "distinct ks" and nk: "k \<notin> set ks" by auto
  show ?case
  proof (cases "map_of (state s) k")
    case None
    then have "k \<notin> set (keys (state s))"
      using map_of_eq_None_keys[of "state s" k] by simp
    then show ?thesis using None by (auto split: option.splits)
  next
    case (Some c)
    then have k: "k \<in> set (keys (state s))"
      using map_of_eq_None_keys[of "state s" k] by simp
    have cvk: "cell_value s k = Some (getValue c)"
      using Some by (simp add: cell_value_def)
    have ntw: "k \<notin> set (takeWhile (\<lambda>k. k \<in> set (keys (state s))) ks)"
      using nk set_takeWhileD by metis
    show ?thesis
    proof (cases "strict_neq (get_prop L k) (getValue c)")
      case True
      let ?s1 = "field_next k (get_prop L k) s"
      obtain evs where evs: "trace (snd (check_keys L ks ?s1)) = trace ?s1 @ evs"
        and fe: "\<And>f. field_emissions f evs =
          (case cell_value ?s1 f of
             None \<Rightarrow> []
           | Some cv \<Rightarrow>
               if f \<in> set (takeWhile (\<lambda>k. k \<in> set (keys (state ?s1))) ks) \<and> strict_neq (get_prop L f) cv
               then [get_prop L f] else [])"
        using Cons.IH[OF d, of ?s1] by blast
      have tr: "trace (snd (check_keys L (k # ks) s)) = trace s @ (FieldNext k (get_prop L k) # evs)"
        using Some True evs by (simp add: Let_def)
      have "field_emissions f (FieldNext k (get_prop L k) # evs) =
        (case cell_value s f of
           None \<Rightarrow> []
         | Some cv \<Rightarrow>
             if f \<in> set (takeWhile (\<lambda>k. k \<in> set (keys (state s))) (k # ks)) \<and> strict_neq (get_prop L f) cv
             then [get_prop L f] else [])" for f
      proof (cases "f = k")
        case True
        have "field_emissions k evs = []"
          using fe[of k] ntw by (simp split: option.splits)
        then show ?thesis using True \<open>strict_neq (get_prop L k) (getValue c)\<close> cvk k by simp
      next
        case False
        then show ?thesis using fe[of f] k
          by (simp add: cell_value_field_next cong: option.case_cong)
      qed
      then show ?thesis using tr by blast
    next
      case False
      obtain evs where evs: "trace (snd (check_keys L ks s)) = trace s @ evs"
        and fe: "\<And>f. field_emissions f evs =
          (case cell_value s f of
             None \<Rightarrow> []
           | Some cv \<Rightarrow>
               if f \<in> set (takeWhile (\<lambda>k. k \<in> set (keys (state s))) ks) \<and> strict_neq (get_prop L f) cv
               then [get_prop L f] else [])"
        using Cons.IH[OF d, of s] by blast
      have tr: "trace (snd (check_keys L (k # ks) s)) = trace s @ evs"
        using Some False evs by (simp add: Let_def)
      have "field_emissions f evs =
        (case cell_value s f of
           None \<Rightarrow> []
         | Some cv \<Rightarrow>
             if f \<in> set (takeWhile (\<lambda>k. k \<in> set (keys (state s))) (k # ks)) \<and> strict_neq (get_prop L f) cv
             then [get_prop L f] else [])" for f
      proof (cases "f = k")
        case True
        then show ?thesis using fe[of k] ntw False cvk by simp
      next
        case False
        then show ?thesis using fe[of f] k by (simp cong: option.case_cong)
      qed
      then show ?thesis using tr by blast
    qed
  qed
qed

section \<open>Properties of the mutations\<close>

lemma trace_stateSubject_next [simp]: "trace (stateSubject_next v s) = trace s @ [StateNext v]"
  by (simp add: stateSubject_next_def)

lemma state_stateSubject_next [simp]: "state (stateSubject_next v s) = state s"
  by (simp add: stateSubject_next_def)

lemma snapshot_stateSubject_next [simp]: "getValue (stateSubject (stateSubject_next v s)) = v"
  by (simp add: stateSubject_next_def getValue_def subject_next_def)

lemma cell_value_stateSubject_next [simp]: "cell_value (stateSubject_next v s) k = cell_value s k"
  by (simp add: cell_value_def)

lemma snapshot_frozenState: "frozenState s = snapshot s"
  by (simp add: frozenState_def snapshot_def)

lemma apply_mutation_cases:
  "apply_mutation m s =
     (case update_of m s of
        Inl e \<Rightarrow> (Some e, s)
      | Inr u \<Rightarrow>
          checkAndUpdateState u
            (stateSubject_next
               (case m of PatchState a \<Rightarrow> spread (spread [] (frozenState s)) u | _ \<Rightarrow> u) s))"
  by (cases m) (simp_all add: setState_def patchState_def updater_def Let_def split: sum.splits)

lemma reached_all: "set (keys cand) \<subseteq> set (keys (state s)) \<Longrightarrow> reached cand s = keys cand"
  unfolding reached_def by (rule takeWhile_eq_all_conv[THEN iffD2]) auto

lemma reached_stateSubject_next [simp]: "reached cand (stateSubject_next v s) = reached cand s"
  by (simp add: reached_def)

lemma reached_subset: "set (reached u s) \<subseteq> set (keys u) \<inter> set (keys (state s))"
  unfolding reached_def by (auto dest: set_takeWhileD)

lemma apply_mutation_Inr:
  "update_of m s = Inr u \<Longrightarrow>
   apply_mutation m s = check_keys (new_snapshot m s u) (keys u) (stateSubject_next (new_snapshot m s u) s)"
  by (simp add: apply_mutation_cases new_snapshot_def checkAndUpdateState_def)

lemma mutation_snapshot:
  "update_of m s = Inr u \<Longrightarrow> snapshot (snd (apply_mutation m s)) = new_snapshot m s u"
  by (simp add: apply_mutation_Inr snapshot_def)

lemma mutation_keys_state:
  "keys (state (snd (apply_mutation m s))) = keys (state s)"
proof (cases "update_of m s")
  case (Inl e)
  then show ?thesis by (simp add: apply_mutation_cases)
next
  case (Inr u)
  show ?thesis by (simp add: apply_mutation_Inr[OF Inr])
qed

lemma mutation_result:
  "update_of m s = Inr u \<Longrightarrow>
   fst (apply_mutation m s) = (if set (keys u) \<subseteq> set (keys (state s)) then None else Some TypeError)"
  by (simp add: apply_mutation_Inr fst_check_keys)

lemma mutation_cells:
  "update_of m s = Inr u \<Longrightarrow>
   cell_value (snd (apply_mutation m s)) f =
     (if f \<in> set (reached u s) then Some (get_prop (new_snapshot m s u) f) else cell_value s f)"
  by (simp add: apply_mutation_Inr cell_value_check_keys reached_def)

lemma mutation_events:
  assumes "update_of m s = Inr u"
  shows "\<exists>evs. emitted s (snd (apply_mutation m s)) = StateNext (new_snapshot m s u) # evs \<and>
           (\<forall>e\<in>set evs. is_FieldNext e)"
proof -
  let ?n = "new_snapshot m s u"
  obtain evs where "trace (snd (check_keys ?n (keys u) (stateSubject_next ?n s)))
        = trace (stateSubject_next ?n s) @ evs" and fn: "\<forall>e\<in>set evs. is_FieldNext e"
    using trace_check_keys by blast
  then have "emitted s (snd (apply_mutation m s)) = StateNext ?n # evs"
    by (simp add: apply_mutation_Inr[OF assms] emitted_def)
  then show ?thesis using fn by simp
qed

lemma mutation_emissions:
  assumes "update_of m s = Inr u" and "distinct (keys u)" and "cell_value s f = Some cv"
  shows "field_emissions f (emitted s (snd (apply_mutation m s))) =
     (if f \<in> set (reached u s) \<and> strict_neq (get_prop (new_snapshot m s u) f) cv
      then [get_prop (new_snapshot m s u) f] else [])"
proof -
  let ?n = "new_snapshot m s u"
  let ?s1 = "stateSubject_next ?n s"
  obtain evs where tr: "trace (snd (check_keys ?n (keys u) ?s1)) = trace ?s1 @ evs"
    and fe: "\<And>f. field_emissions f evs =
        (case cell_value ?s1 f of
           None \<Rightarrow> []
         | Some cv \<Rightarrow>
             if f \<in> set (takeWhile (\<lambda>k. k \<in> set (keys (state ?s1))) (keys u)) \<and> strict_neq (get_prop ?n f) cv
             then [get_prop ?n f] else [])"
    using field_emissions_check_keys[OF assms(2), of ?n ?s1] by blast
  have "emitted s (snd (apply_mutation m s)) = StateNext ?n # evs"
    by (simp add: apply_mutation_Inr[OF assms(1)] tr emitted_def)
  then show ?thesis using fe[of f] assms(3)
    by (simp add: reached_def)
qed

lemma mutation_emissions_None:
  assumes "update_of m s = Inr u" and "distinct (keys u)" and "cell_value s f = None"
  shows "field_emissions f (emitted s (snd (apply_mutation m s))) = []"
proof -
  let ?n = "new_snapshot m s u"
  let ?s1 = "stateSubject_next ?n s"
  obtain evs where tr: "trace (snd (check_keys ?n (keys u) ?s1)) = trace ?s1 @ evs"
    and fe: "\<And>f. field_emissions f evs =
        (case cell_value ?s1 f of
           None \<Rightarrow> []
         | Some cv \<Rightarrow>
             if f \<in> set (takeWhile (\<lambda>k. k \<in> set (keys (state ?s1))) (keys u)) \<and> strict_neq (get_prop ?n f) cv
             then [get_prop ?n f] else [])"
    using field_emissions_check_keys[OF assms(2), of ?n ?s1] by blast
  have "emitted s (snd (apply_mutation m s)) = StateNext ?n # evs"
    by (simp add: apply_mutation_Inr[OF assms(1)] tr emitted_def)
  then show ?thesis using fe[of f] assms(3) by simp
qed

lemma distinct_new_snapshot:
  "distinct (keys u) \<Longrightarrow> distinct (keys (new_snapshot m s u))"
  by (cases m) (simp_all add: new_snapshot_def)

lemma keys_state_ComponentStore: "set (keys (state (ComponentStore init))) = set (keys init)"
  by (simp add: ComponentStore_def set_keys_fold_set_prop)

lemma cell_value_ComponentStore:
  "cell_value (ComponentStore init) f = (if f \<in> set (keys init) then Some (get_prop init f) else None)"
  by (simp add: cell_value_def ComponentStore_def map_of_fold_set_prop
      getPropAsBehaviourSubject_def BehaviorSubject_def getValue_def)

lemma snapshot_ComponentStore [simp]: "snapshot (ComponentStore init) = init"
  by (simp add: snapshot_def ComponentStore_def BehaviorSubject_def getValue_def)

lemma keys_state_run: "keys (state (run ms s)) = keys (state s)"
  by (induction ms arbitrary: s) (simp_all add: mutation_keys_state)

section \<open>The invariant of a run\<close>

lemma run_inv_ComponentStore: "wf_object init \<Longrightarrow> run_inv (keys init) (ComponentStore init)"
  by (simp add: run_inv_def consistent_on_def wf_object_def keys_state_ComponentStore
      cell_value_ComponentStore)

lemma set_keys_new_snapshot:
  "set (keys (new_snapshot m s u)) =
     (case m of PatchState a \<Rightarrow> set (keys (snapshot s)) \<union> set (keys u) | _ \<Rightarrow> set (keys u))"
  by (cases m) (simp_all add: new_snapshot_def snapshot_frozenState)

lemma run_inv_step:
  assumes "run_inv ks s" and "update_of m s = Inr u" and "wf_object u"
    and "set (keys u) \<subseteq> set ks"
  shows "run_inv ks (snd (apply_mutation m s))"
proof -
  let ?s' = "snd (apply_mutation m s)"
  let ?n = "new_snapshot m s u"
  have du: "distinct (keys u)" using assms(3) by (simp add: wf_object_def)
  have ds: "distinct (keys (snapshot s))" and tk: "set (keys (state s)) = set ks"
    and sk: "set (keys (snapshot s)) \<subseteq> set ks"
    and cs: "consistent_on (keys (snapshot s)) s" using assms(1) by (simp_all add: run_inv_def)
  have snap: "snapshot ?s' = ?n" by (rule mutation_snapshot[OF assms(2)])
  have r: "reached u s = keys u" using assms(4) tk by (simp add: reached_all)
  have cells: "cell_value ?s' f = (if f \<in> set (keys u) then Some (get_prop ?n f) else cell_value s f)" for f
    using mutation_cells[OF assms(2), of f] r by simp
  have "cell_value ?s' f = Some (get_prop ?n f)" if f: "f \<in> set (keys ?n)" for f
  proof (cases "f \<in> set (keys u)")
    case True
    then show ?thesis using cells by simp
  next
    case False
    then obtain a where m: "m = PatchState a" and fs: "f \<in> set (keys (snapshot s))"
      using f by (cases m) (auto simp: set_keys_new_snapshot)
    have "get_prop ?n f = get_prop (snapshot s) f"
      using False ds by (simp add: m new_snapshot_def snapshot_frozenState get_prop_spread_notin)
    moreover have "cell_value s f = Some (get_prop (snapshot s) f)"
      using cs fs by (simp add: consistent_on_def)
    ultimately show ?thesis using cells False by simp
  qed
  then have "consistent_on (keys (snapshot ?s')) ?s'"
    by (simp add: consistent_on_def snap)
  moreover have "distinct (keys (snapshot ?s'))"
    using du by (simp add: snap distinct_new_snapshot)
  moreover have "set (keys (snapshot ?s')) \<subseteq> set ks"
  proof -
    have "set (keys ?n) \<subseteq> set ks"
      using sk assms(4) by (cases m) (auto simp: set_keys_new_snapshot)
    then show ?thesis by (simp only: snap)
  qed
  ultimately show ?thesis by (simp add: run_inv_def mutation_keys_state tk)
qed

lemma run_inv_states_after:
  "run_inv ks s \<Longrightarrow> mentions_only ks ms s \<Longrightarrow>
   \<forall>s'\<in>set (states_after ms s). run_inv ks s'"
proof (induction ms arbitrary: s)
  case Nil
  then show ?case by simp
next
  case (Cons m ms)
  have i: "run_inv ks (snd (apply_mutation m s))"
  proof (cases "update_of m s")
    case (Inl e)
    then show ?thesis using Cons.prems(1) by (simp add: apply_mutation_cases)
  next
    case (Inr u)
    then show ?thesis using Cons.prems by (intro run_inv_step[OF _ Inr]) simp_all
  qed
  then show ?case using Cons.IH[OF i] Cons.prems by (simp add: Let_def)
qed

lemma keeps_step:
  assumes "set ks \<subseteq> set (keys (snapshot s))" and "update_of m s = Inr u"
    and "\<not> replaces m \<or> set ks \<subseteq> set (keys u)"
  shows "set ks \<subseteq> set (keys (snapshot (snd (apply_mutation m s))))"
proof -
  have "set ks \<subseteq> set (keys (new_snapshot m s u))"
    using assms(1,3) by (cases m) (auto simp: set_keys_new_snapshot)
  then show ?thesis by (simp only: mutation_snapshot[OF assms(2)])
qed

lemma keeps_states_after:
  "set ks \<subseteq> set (keys (snapshot s)) \<Longrightarrow> keeps_all ks ms s \<Longrightarrow>
   \<forall>s'\<in>set (states_after ms s). set ks \<subseteq> set (keys (snapshot s'))"
proof (induction ms arbitrary: s)
  case Nil
  then show ?case by simp
next
  case (Cons m ms)
  have i: "set ks \<subseteq> set (keys (snapshot (snd (apply_mutation m s))))"
  proof (cases "update_of m s")
    case (Inl e)
    then show ?thesis using Cons.prems(1) by (simp add: apply_mutation_cases)
  next
    case (Inr u)
    then show ?thesis using Cons.prems by (intro keeps_step[OF _ Inr]) simp_all
  qed
  then show ?case using Cons.IH[OF i] Cons.prems by (simp add: Let_def)
qed

section \<open>Properties of the subscribers\<close>

text \<open>With callbacks that only observe, the methods are those of the section \<open>ComponentStore\<close>.\<close>

lemma stateSubject_next_notify_observe_only:
  "observe_only subs \<Longrightarrow> stateSubject_next_notify subs v s = stateSubject_next v s"
  by (simp add: observe_only_def stateSubject_next_notify_def)

lemma field_next_notify_observe_only:
  "observe_only subs \<Longrightarrow> field_next_notify subs k v s = field_next k v s"
  by (simp add: observe_only_def field_next_notify_def split: option.splits)

lemma check_keys_notify_observe_only:
  "observe_only subs \<Longrightarrow> check_keys_notify subs L ks s = check_keys L ks s"
proof (induction ks arbitrary: s)
  case Nil
  then show ?case by simp
next
  case (Cons k ks)
  show ?case
  proof (cases "map_of (state s) k")
    case None
    then show ?thesis by simp
  next
    case (Some c)
    then show ?thesis
      using Cons.IH[OF Cons.prems] Cons.prems
      by (simp add: Let_def field_next_notify_observe_only)
  qed
qed

lemma checkAndUpdateState_notify_observe_only:
  "observe_only subs \<Longrightarrow> checkAndUpdateState_notify subs cand s = checkAndUpdateState cand s"
  by (simp add: checkAndUpdateState_notify_def checkAndUpdateState_def
      check_keys_notify_observe_only)

lemma apply_mutation_notify_observe_only:
  "observe_only subs \<Longrightarrow> apply_mutation_notify subs m s = apply_mutation m s"
  by (cases m)
    (simp_all add: setState_notify_def patchState_notify_def updater_notify_def
      setState_def patchState_def updater_def checkAndUpdateState_notify_observe_only
      stateSubject_next_notify_observe_only Let_def split: sum.splits)

lemma run_notify_observe_only:
  "observe_only subs \<Longrightarrow> run_notify subs ms s = run ms s"
  by (induction ms arbitrary: s) (simp_all add: apply_mutation_notify_observe_only)

lemma states_after_notify_observe_only:
  "observe_only subs \<Longrightarrow> states_after_notify subs ms s = states_after ms s"
  by (induction ms arbitrary: s) (simp_all add: apply_mutation_notify_observe_only)

lemma mentions_only_notify_observe_only:
  "observe_only subs \<Longrightarrow> mentions_only_notify subs ks ms s = mentions_only ks ms s"
  by (induction ms arbitrary: s) (simp_all add: apply_mutation_notify_observe_only)

lemma keeps_all_notify_observe_only:
  "observe_only subs \<Longrightarrow> keeps_all_notify subs ks ms s = keeps_all ks ms s"
  by (induction ms arbitrary: s) (simp_all add: apply_mutation_notify_observe_only)

text \<open>
  A callback that starts a mutation. On the store of \<open>{a: 0, b: 0}\<close>, a callback
  subscribed to the subject of \<open>a\<close> calls \<open>setState({a: 1, b: 5})\<close> when it receives
  \<open>1\<close>; in that inner call no callback does anything, since \<open>a\<close> does not emit again.
  The caller makes \<open>setState({a: 1, b: 1})\<close>. The loop of the outer call has read
  \<open>latestState = {a: 1, b: 1}\<close>; the subject of \<open>a\<close> emits \<open>1\<close>, the inner call
  publishes \<open>{a: 1, b: 5}\<close> and gives \<open>5\<close> to the subject of \<open>b\<close>, and the outer loop
  then gives \<open>1\<close> to the subject of \<open>b\<close>. When the outer call returns the snapshot has
  \<open>b = 5\<close> and the subject of \<open>b\<close> holds \<open>1\<close>.
\<close>

lemma mutation_inside_subscriber:
  "snapshot (run_notify
     \<lparr>state_subscribers = (\<lambda>v s. s),
      field_subscribers = (\<lambda>k v s.
         if k = Name ''a'' \<and> v = Num 1
         then snd (setState (Literal [(Name ''a'', Num 1), (Name ''b'', Num 5)]) s) else s)\<rparr>
     [SetState (Literal [(Name ''a'', Num 1), (Name ''b'', Num 1)])]
     (ComponentStore [(Name ''a'', Num 0), (Name ''b'', Num 0)]))
   = [(Name ''a'', Num 1), (Name ''b'', Num 5)] \<and>
   cell_value (run_notify
     \<lparr>state_subscribers = (\<lambda>v s. s),
      field_subscribers = (\<lambda>k v s.
         if k = Name ''a'' \<and> v = Num 1
         then snd (setState (Literal [(Name ''a'', Num 1), (Name ''b'', Num 5)]) s) else s)\<rparr>
     [SetState (Literal [(Name ''a'', Num 1), (Name ''b'', Num 1)])]
     (ComponentStore [(Name ''a'', Num 0), (Name ''b'', Num 0)])) (Name ''b'') = Some (Num 1) \<and>
   trace (run_notify
     \<lparr>state_subscribers = (\<lambda>v s. s),
      field_subscribers = (\<lambda>k v s.
         if k = Name ''a'' \<and> v = Num 1
         then snd (setState (Literal [(Name ''a'', Num 1), (Name ''b'', Num 5)]) s) else s)\<rparr>
     [SetState (Literal [(Name ''a'', Num 1), (Name ''b'', Num 1)])]
     (ComponentStore [(Name ''a'', Num 0), (Name ''b'', Num 0)]))
   = [StateNext [(Name ''a'', Num 1), (Name ''b'', Num 1)], FieldNext (Name ''a'') (Num 1),
      StateNext [(Name ''a'', Num 1), (Name ''b'', Num 5)], FieldNext (Name ''b'') (Num 5),
      FieldNext (Name ''b'') (Num 1)]"
  by (simp add: store_defs notify_defs)

section \<open>Properties of the selectors\<close>



lemma keys_append [simp]: "keys (a @ b) = keys a @ keys b"
  by (simp add: keys_def)









lemma length_latest_values [simp]: "length (latest_values vals ds) = length vals"
  unfolding latest_values_def
  by (induction ds arbitrary: vals) (auto simp: combineLatest_next_def Let_def split: prod.splits)







section \<open>CustomStore and ComponentStore, member by member\<close>

lemma CustomStore_check_keys_eq: "CustomStore_check_keys L ks s = check_keys L ks s"
  by (induction ks arbitrary: s) (simp_all add: Let_def split: option.splits)

lemma CustomStore_checkAndUpdateState_eq:
  "CustomStore_checkAndUpdateState c s = checkAndUpdateState c s"
  by (simp add: CustomStore_checkAndUpdateState_def checkAndUpdateState_def CustomStore_check_keys_eq)

lemma CustomStore_frozenState_eq: "CustomStore_frozenState s = frozenState s"
  by (simp add: CustomStore_frozenState_def frozenState_def)

lemma CustomStore_eq: "CustomStore init = ComponentStore init"
  by (simp add: CustomStore_def ComponentStore_def CustomStore_getPropAsBehaviourSubject_def
      getPropAsBehaviourSubject_def)

lemma CustomStore_setState_eq: "CustomStore_setState a s = setState a s"
  by (simp add: CustomStore_setState_def setState_def CustomStore_frozenState_eq
      CustomStore_checkAndUpdateState_eq cong: sum.case_cong)

lemma CustomStore_patchState_eq: "CustomStore_patchState a s = patchState a s"
  by (simp add: CustomStore_patchState_def patchState_def CustomStore_frozenState_eq
      CustomStore_checkAndUpdateState_eq cong: sum.case_cong)

lemma CustomStore_updater_eq: "CustomStore_updater fn p s = updater fn p s"
  by (simp add: CustomStore_updater_def updater_def CustomStore_frozenState_eq
      CustomStore_checkAndUpdateState_eq cong: sum.case_cong)

lemma CustomStore_select_eq: "CustomStore_select f s = select [Function f] s"
  by (simp add: CustomStore_select_def select_def)

lemma CustomStore_ngOnDestroy_eq: "CustomStore_ngOnDestroy s = ngOnDestroy s"
  by (simp add: CustomStore_ngOnDestroy_def ngOnDestroy_def)

lemma CustomStore_call_eq: "CustomStore_call x s = ComponentStore_call x s"
  by (cases x)
    (simp_all add: CustomStore_setState_eq CustomStore_patchState_eq CustomStore_updater_eq
      CustomStore_select_eq CustomStore_ngOnDestroy_eq)

lemma calls_cong: "(\<And>x s. f x s = g x s) \<Longrightarrow> calls f xs s = calls g xs s"
  by (induction xs arbitrary: s) simp_all

section \<open>The consistency invariant\<close>

text \<open>
  C1, as amended. Let the initial snapshot be an object, let the subscribers only
  observe, so that no mutation is started from inside a subscriber and each mutation
  is started when the one before it has returned, and let a sequence of \<open>setState\<close>,
  \<open>patchState\<close> and updater calls be such that every update computed is an object
  that mentions only fields of the initial snapshot. Then after the construction and
  after each mutation the table has a subject for exactly the initial fields, the
  current snapshot has only initial fields, and for every field that the current
  snapshot has, the subject of the field holds a value that is \<open>===\<close> to the value of
  the field in the snapshot, or \<open>NaN\<close> when that value is \<open>NaN\<close>. If moreover every
  update of \<open>setState\<close> and of an updater has every field of the initial snapshot, the
  current snapshot always has every initial field, and this holds for the subject of
  every field.

  Neither condition can be dropped. A \<open>setState\<close> whose update leaves out a field
  leaves the subject of that field with its old value, while the snapshot has no such
  field. A mutation started from inside a subscriber of a field is the lemma
  \<open>mutation_inside_subscriber\<close>.
\<close>

theorem consistency_invariant:
  assumes "wf_object init" and "observe_only subs"
    and "mentions_only_notify subs (keys init) ms (ComponentStore init)"
  shows "(\<forall>s'\<in>set (ComponentStore init # states_after_notify subs ms (ComponentStore init)).
           set (keys (state s')) = set (keys init) \<and>
           set (keys (snapshot s')) \<subseteq> set (keys init) \<and>
           consistent_on (keys (snapshot s')) s' \<and>
           (\<forall>f\<in>set (keys (snapshot s')). get_prop (snapshot s') f \<noteq> NaN \<longrightarrow>
              (\<exists>cv. cell_value s' f = Some cv \<and> \<not> strict_neq cv (get_prop (snapshot s') f)))) \<and>
         (keeps_all_notify subs (keys init) ms (ComponentStore init) \<longrightarrow>
            (\<forall>s'\<in>set (ComponentStore init # states_after_notify subs ms (ComponentStore init)).
               set (keys (snapshot s')) = set (keys init) \<and> consistent s'))"
proof -
  let ?C = "ComponentStore init"
  have sa: "states_after_notify subs ms ?C = states_after ms ?C"
    by (rule states_after_notify_observe_only[OF assms(2)])
  have ka: "keeps_all_notify subs (keys init) ms ?C = keeps_all (keys init) ms ?C"
    by (rule keeps_all_notify_observe_only[OF assms(2)])
  have mo: "mentions_only (keys init) ms ?C"
    using assms(3) by (simp only: mentions_only_notify_observe_only[OF assms(2)])
  have i: "run_inv (keys init) ?C" by (rule run_inv_ComponentStore[OF assms(1)])
  have all: "run_inv (keys init) s'" if "s' \<in> set (?C # states_after ms ?C)" for s'
    using that i run_inv_states_after[OF i mo] by auto
  have h: "run_inv (keys init) s' \<Longrightarrow>
     set (keys (state s')) = set (keys init) \<and>
     set (keys (snapshot s')) \<subseteq> set (keys init) \<and>
     consistent_on (keys (snapshot s')) s' \<and>
     (\<forall>f\<in>set (keys (snapshot s')). get_prop (snapshot s') f \<noteq> NaN \<longrightarrow>
        (\<exists>cv. cell_value s' f = Some cv \<and> \<not> strict_neq cv (get_prop (snapshot s') f)))" for s'
    by (auto simp: run_inv_def consistent_on_def strict_neq_def)
  have first: "\<forall>s'\<in>set (?C # states_after ms ?C).
           set (keys (state s')) = set (keys init) \<and>
           set (keys (snapshot s')) \<subseteq> set (keys init) \<and>
           consistent_on (keys (snapshot s')) s' \<and>
           (\<forall>f\<in>set (keys (snapshot s')). get_prop (snapshot s') f \<noteq> NaN \<longrightarrow>
              (\<exists>cv. cell_value s' f = Some cv \<and> \<not> strict_neq cv (get_prop (snapshot s') f)))"
    using all h by blast
  have second: "set (keys (snapshot s')) = set (keys init) \<and> consistent s'"
    if k: "keeps_all (keys init) ms ?C" and m: "s' \<in> set (?C # states_after ms ?C)" for s'
  proof -
    have "set (keys init) \<subseteq> set (keys (snapshot ?C))" by simp
    then have "set (keys init) \<subseteq> set (keys (snapshot s'))"
      using keeps_states_after[OF _ k] m by auto
    moreover have r: "run_inv (keys init) s'" by (rule all[OF m])
    ultimately have e: "set (keys (snapshot s')) = set (keys init)"
      by (auto simp: run_inv_def)
    then have "consistent s'" using r by (simp add: run_inv_def consistent_def consistent_on_def)
    then show ?thesis using e by simp
  qed
  show ?thesis unfolding sa ka using first second by blast
qed

theorem consistency_invariant_witness:
  "wf_object [(Name ''a'', Num 0), (Name ''b'', Num 0)] \<and>
   observe_only \<lparr>state_subscribers = (\<lambda>v s. s), field_subscribers = (\<lambda>k v s. s)\<rparr> \<and>
   mentions_only_notify \<lparr>state_subscribers = (\<lambda>v s. s), field_subscribers = (\<lambda>k v s. s)\<rparr>
     (keys [(Name ''a'', Num 0), (Name ''b'', Num 0)])
     [PatchState (Literal [(Name ''a'', Num 1)]),
      SetState (Fn (\<lambda>st. Inr [(Name ''a'', Num 2), (Name ''b'', get_prop st (Name ''a''))])),
      Update (\<lambda>st p. Inr [(Name ''a'', p), (Name ''b'', NaN)]) (Str ''x'')]
     (ComponentStore [(Name ''a'', Num 0), (Name ''b'', Num 0)]) \<and>
   keeps_all_notify \<lparr>state_subscribers = (\<lambda>v s. s), field_subscribers = (\<lambda>k v s. s)\<rparr>
     (keys [(Name ''a'', Num 0), (Name ''b'', Num 0)])
     [PatchState (Literal [(Name ''a'', Num 1)]),
      SetState (Fn (\<lambda>st. Inr [(Name ''a'', Num 2), (Name ''b'', get_prop st (Name ''a''))])),
      Update (\<lambda>st p. Inr [(Name ''a'', p), (Name ''b'', NaN)]) (Str ''x'')]
     (ComponentStore [(Name ''a'', Num 0), (Name ''b'', Num 0)]) \<and>
   consistent (run_notify \<lparr>state_subscribers = (\<lambda>v s. s), field_subscribers = (\<lambda>k v s. s)\<rparr>
     [PatchState (Literal [(Name ''a'', Num 1)]),
      SetState (Fn (\<lambda>st. Inr [(Name ''a'', Num 2), (Name ''b'', get_prop st (Name ''a''))])),
      Update (\<lambda>st p. Inr [(Name ''a'', p), (Name ''b'', NaN)]) (Str ''x'')]
     (ComponentStore [(Name ''a'', Num 0), (Name ''b'', Num 0)])) \<and>
   snapshot (run_notify \<lparr>state_subscribers = (\<lambda>v s. s), field_subscribers = (\<lambda>k v s. s)\<rparr>
     [PatchState (Literal [(Name ''a'', Num 1)]),
      SetState (Fn (\<lambda>st. Inr [(Name ''a'', Num 2), (Name ''b'', get_prop st (Name ''a''))])),
      Update (\<lambda>st p. Inr [(Name ''a'', p), (Name ''b'', NaN)]) (Str ''x'')]
     (ComponentStore [(Name ''a'', Num 0), (Name ''b'', Num 0)]))
     = [(Name ''a'', Str ''x''), (Name ''b'', NaN)] \<and>
   mentions_only_notify \<lparr>state_subscribers = (\<lambda>v s. s), field_subscribers = (\<lambda>k v s. s)\<rparr>
     (keys [(Name ''a'', Num 0), (Name ''b'', Num 0)])
     [SetState (Literal [(Name ''a'', Num 1)])]
     (ComponentStore [(Name ''a'', Num 0), (Name ''b'', Num 0)]) \<and>
   consistent_on [Name ''a'']
     (run_notify \<lparr>state_subscribers = (\<lambda>v s. s), field_subscribers = (\<lambda>k v s. s)\<rparr>
        [SetState (Literal [(Name ''a'', Num 1)])]
        (ComponentStore [(Name ''a'', Num 0), (Name ''b'', Num 0)]))"
proof -
  let ?init = "[(Name ''a'', Num 0), (Name ''b'', Num 0)]"
  let ?subs = "\<lparr>state_subscribers = (\<lambda>v s. s), field_subscribers = (\<lambda>k v s. s)\<rparr>"
  let ?ms = "[PatchState (Literal [(Name ''a'', Num 1)]),
      SetState (Fn (\<lambda>st. Inr [(Name ''a'', Num 2), (Name ''b'', get_prop st (Name ''a''))])),
      Update (\<lambda>st p. Inr [(Name ''a'', p), (Name ''b'', NaN)]) (Str ''x'')]"
  let ?ns = "[SetState (Literal [(Name ''a'', Num 1)])]"
  have h1: "wf_object ?init" by (simp add: wf_object_def)
  have h0: "observe_only ?subs" by (simp add: observe_only_def)
  have h2: "mentions_only_notify ?subs (keys ?init) ?ms (ComponentStore ?init)"
    by (simp add: store_defs notify_defs wf_object_def)
  have h3: "keeps_all_notify ?subs (keys ?init) ?ms (ComponentStore ?init)"
    by (simp add: store_defs notify_defs)
  have mem: "run_notify ?subs ?ms (ComponentStore ?init)
      \<in> set (ComponentStore ?init # states_after_notify ?subs ?ms (ComponentStore ?init))"
    by (simp add: Let_def)
  have c: "consistent (run_notify ?subs ?ms (ComponentStore ?init))"
    using consistency_invariant[OF h1 h0 h2] h3 mem by blast
  have s: "snapshot (run_notify ?subs ?ms (ComponentStore ?init))
      = [(Name ''a'', Str ''x''), (Name ''b'', NaN)]"
    by (simp add: store_defs notify_defs)
  have g2: "mentions_only_notify ?subs (keys ?init) ?ns (ComponentStore ?init)"
    by (simp add: store_defs notify_defs wf_object_def)
  have mem2: "run_notify ?subs ?ns (ComponentStore ?init)
      \<in> set (ComponentStore ?init # states_after_notify ?subs ?ns (ComponentStore ?init))"
    by (simp add: Let_def)
  have "consistent_on (keys (snapshot (run_notify ?subs ?ns (ComponentStore ?init))))
      (run_notify ?subs ?ns (ComponentStore ?init))"
    using consistency_invariant[OF h1 h0 g2] mem2 by blast
  moreover have "keys (snapshot (run_notify ?subs ?ns (ComponentStore ?init))) = [Name ''a'']"
    by (simp add: store_defs notify_defs)
  ultimately have c2: "consistent_on [Name ''a''] (run_notify ?subs ?ns (ComponentStore ?init))"
    by simp
  show ?thesis using h1 h0 h2 h3 c s g2 c2 by simp
qed

theorem consistency_invariant_counterexample:
  "wf_object [(Name ''a'', Num 0), (Name ''b'', Num 0)] \<and>
   mentions_only (keys [(Name ''a'', Num 0), (Name ''b'', Num 0)])
     [SetState (Literal [(Name ''a'', Num 1)])]
     (ComponentStore [(Name ''a'', Num 0), (Name ''b'', Num 0)]) \<and>
   cell_value (run [SetState (Literal [(Name ''a'', Num 1)])]
       (ComponentStore [(Name ''a'', Num 0), (Name ''b'', Num 0)])) (Name ''b'') = Some (Num 0) \<and>
   get_prop (snapshot (run [SetState (Literal [(Name ''a'', Num 1)])]
       (ComponentStore [(Name ''a'', Num 0), (Name ''b'', Num 0)]))) (Name ''b'') = Undefined \<and>
   \<not> consistent (run [SetState (Literal [(Name ''a'', Num 1)])]
       (ComponentStore [(Name ''a'', Num 0), (Name ''b'', Num 0)]))"
  by (simp add: store_defs wf_object_def consistent_def)

section \<open>Change-only emission\<close>

text \<open>
  C2, as amended. Let a mutation compute the update object \<open>u\<close>, and let \<open>f\<close> be a
  field that has a subject. The subject of \<open>f\<close> emits if and only if \<open>f\<close> is one of
  the fields of \<open>u\<close> that reconciliation visits, which are the fields of \<open>u\<close> before
  the first one that has no subject, and the value of \<open>f\<close> in the new snapshot is
  \<open>!==\<close> the value the subject held; it then emits that new value, once. When every
  field of \<open>u\<close> has a subject, reconciliation visits all the fields of \<open>u\<close>.
\<close>

theorem change_only_emission:
  assumes "update_of m s = Inr u" and "distinct (keys u)" and "cell_value s f = Some cv"
  shows "field_emissions f (emitted s (snd (apply_mutation m s))) =
     (if f \<in> set (reached u s) \<and>
         strict_neq (get_prop (snapshot (snd (apply_mutation m s))) f) cv
      then [get_prop (snapshot (snd (apply_mutation m s))) f] else []) \<and>
     (set (keys u) \<subseteq> set (keys (state s)) \<longrightarrow> reached u s = keys u)"
  by (simp add: mutation_emissions[OF assms] mutation_snapshot[OF assms(1)] reached_all)

theorem change_only_emission_witness:
  "update_of (SetState (Literal [(Name ''a'', Num 1), (Name ''b'', Num 0)]))
     (ComponentStore [(Name ''a'', Num 0), (Name ''b'', Num 0)])
     = Inr [(Name ''a'', Num 1), (Name ''b'', Num 0)] \<and>
   distinct (keys [(Name ''a'', Num 1), (Name ''b'', Num 0)]) \<and>
   reached [(Name ''a'', Num 1), (Name ''b'', Num 0)]
     (ComponentStore [(Name ''a'', Num 0), (Name ''b'', Num 0)]) = [Name ''a'', Name ''b''] \<and>
   cell_value (ComponentStore [(Name ''a'', Num 0), (Name ''b'', Num 0)]) (Name ''a'') = Some (Num 0) \<and>
   cell_value (ComponentStore [(Name ''a'', Num 0), (Name ''b'', Num 0)]) (Name ''b'') = Some (Num 0) \<and>
   field_emissions (Name ''a'')
     (emitted (ComponentStore [(Name ''a'', Num 0), (Name ''b'', Num 0)])
        (snd (apply_mutation (SetState (Literal [(Name ''a'', Num 1), (Name ''b'', Num 0)]))
           (ComponentStore [(Name ''a'', Num 0), (Name ''b'', Num 0)])))) = [Num 1] \<and>
   field_emissions (Name ''b'')
     (emitted (ComponentStore [(Name ''a'', Num 0), (Name ''b'', Num 0)])
        (snd (apply_mutation (SetState (Literal [(Name ''a'', Num 1), (Name ''b'', Num 0)]))
           (ComponentStore [(Name ''a'', Num 0), (Name ''b'', Num 0)])))) = []"
proof -
  let ?s = "ComponentStore [(Name ''a'', Num 0), (Name ''b'', Num 0)]"
  let ?u = "[(Name ''a'', Num 1), (Name ''b'', Num 0)]"
  let ?m = "SetState (Literal ?u)"
  have h1: "update_of ?m ?s = Inr ?u" by (simp add: resolve_def)
  have h2: "distinct (keys ?u)" by (simp add: keys_def)
  have r: "reached ?u ?s = [Name ''a'', Name ''b'']" by (simp add: reached_def store_defs)
  have ca: "cell_value ?s (Name ''a'') = Some (Num 0)" and cb: "cell_value ?s (Name ''b'') = Some (Num 0)"
    by (simp_all add: store_defs)
  have sn: "snapshot (snd (apply_mutation ?m ?s)) = ?u" by (simp add: store_defs)
  have ea: "field_emissions (Name ''a'') (emitted ?s (snd (apply_mutation ?m ?s))) = [Num 1]"
    using change_only_emission[OF h1 h2 ca, unfolded sn] by (simp add: r get_prop_def strict_neq_def)
  have eb: "field_emissions (Name ''b'') (emitted ?s (snd (apply_mutation ?m ?s))) = []"
    using change_only_emission[OF h1 h2 cb, unfolded sn] by (simp add: r get_prop_def strict_neq_def)
  show ?thesis using h1 h2 r ca cb ea eb by simp
qed

theorem change_only_emission_counterexample:
  "update_of (PatchState (Literal [(Name ''b'', Num 1), (Name ''a'', Num 1)])) (ComponentStore [(Name ''a'', Num 0)])
     = Inr [(Name ''b'', Num 1), (Name ''a'', Num 1)] \<and>
   Name ''a'' \<in> set (keys [(Name ''b'', Num 1), (Name ''a'', Num 1)]) \<and>
   cell_value (ComponentStore [(Name ''a'', Num 0)]) (Name ''a'') = Some (Num 0) \<and>
   strict_neq
     (get_prop (snapshot (snd (apply_mutation (PatchState (Literal [(Name ''b'', Num 1), (Name ''a'', Num 1)]))
        (ComponentStore [(Name ''a'', Num 0)])))) (Name ''a''))
     (Num 0) \<and>
   field_emissions (Name ''a'')
     (emitted (ComponentStore [(Name ''a'', Num 0)])
        (snd (apply_mutation (PatchState (Literal [(Name ''b'', Num 1), (Name ''a'', Num 1)]))
           (ComponentStore [(Name ''a'', Num 0)])))) = []"
  by (simp add: store_defs)

section \<open>Patch scoping\<close>

text \<open>
  C3. Let \<open>patchState\<close> be called with the patch \<open>p\<close>, given as an object or computed
  by a function, on a store whose snapshot is an object. The call publishes, before
  anything else, the snapshot merged from the current one and \<open>p\<close>: the fields of \<open>p\<close>
  have the values of \<open>p\<close>, and every field that \<open>p\<close> does not name keeps its value. The
  subject of a field that \<open>p\<close> does not name does not emit and keeps its value. The
  subject of a patched field that reconciliation visits emits the patched value when
  that value is \<open>!==\<close> the value it held: with snapshot \<open>{a:0,b:0}\<close> and patch \<open>{a:1}\<close>
  the subject of \<open>a\<close> emits \<open>1\<close> and the subject of \<open>b\<close> emits nothing.
\<close>

theorem patch_scoping:
  assumes "resolve a (frozenState s) = Inr p"
    and "distinct (keys p)" and "distinct (keys (snapshot s))"
  shows "snapshot (snd (patchState a s)) = spread (spread [] (snapshot s)) p \<and>
    (\<exists>rest. emitted s (snd (patchState a s)) = StateNext (snapshot (snd (patchState a s))) # rest) \<and>
    (\<forall>k\<in>set (keys p). get_prop (snapshot (snd (patchState a s))) k = get_prop p k) \<and>
    (\<forall>k. k \<notin> set (keys p) \<longrightarrow>
       get_prop (snapshot (snd (patchState a s))) k = get_prop (snapshot s) k \<and>
       cell_value (snd (patchState a s)) k = cell_value s k \<and>
       field_emissions k (emitted s (snd (patchState a s))) = []) \<and>
    (\<forall>k\<in>set (reached p s). \<forall>cv. cell_value s k = Some cv \<and> strict_neq (get_prop p k) cv \<longrightarrow>
       field_emissions k (emitted s (snd (patchState a s))) = [get_prop p k])"
proof -
  let ?m = "PatchState a"
  have u: "update_of ?m s = Inr p" using assms(1) by simp
  have am: "apply_mutation ?m s = patchState a s" by simp
  have ns: "new_snapshot ?m s p = spread (spread [] (snapshot s)) p"
    by (simp add: new_snapshot_def snapshot_frozenState)
  have snap: "snapshot (snd (patchState a s)) = spread (spread [] (snapshot s)) p"
    using mutation_snapshot[OF u] ns by simp
  have gp: "get_prop (snapshot (snd (patchState a s))) k =
      (if k \<in> set (keys p) then get_prop p k else get_prop (snapshot s) k)" for k
    by (simp add: snap get_prop_spread[OF assms(3) assms(2)])
  have cells: "cell_value (snd (patchState a s)) k =
     (if k \<in> set (reached p s) then Some (get_prop (new_snapshot ?m s p) k) else cell_value s k)" for k
    using mutation_cells[OF u, of k] by simp
  have sub: "set (reached p s) \<subseteq> set (keys p)"
    using reached_subset by fast
  have first: "\<exists>rest. emitted s (snd (patchState a s)) = StateNext (snapshot (snd (patchState a s))) # rest"
    using mutation_events[OF u] mutation_snapshot[OF u] by auto
  have frame: "k \<notin> set (keys p) \<Longrightarrow>
       get_prop (snapshot (snd (patchState a s))) k = get_prop (snapshot s) k \<and>
       cell_value (snd (patchState a s)) k = cell_value s k \<and>
       field_emissions k (emitted s (snd (patchState a s))) = []" for k
  proof -
    assume k: "k \<notin> set (keys p)"
    then have nr: "k \<notin> set (reached p s)" using sub by auto
    have "field_emissions k (emitted s (snd (patchState a s))) = []"
    proof (cases "cell_value s k")
      case None
      then show ?thesis using mutation_emissions_None[OF u assms(2) None] by simp
    next
      case (Some cv)
      then show ?thesis using mutation_emissions[OF u assms(2) Some] nr by simp
    qed
    then show ?thesis using k nr gp[of k] cells[of k] by simp
  qed
  have emit: "k \<in> set (reached p s) \<Longrightarrow> cell_value s k = Some cv \<and> strict_neq (get_prop p k) cv \<Longrightarrow>
       field_emissions k (emitted s (snd (patchState a s))) = [get_prop p k]" for k cv
  proof -
    assume r: "k \<in> set (reached p s)" and c: "cell_value s k = Some cv \<and> strict_neq (get_prop p k) cv"
    from r sub have kp: "k \<in> set (keys p)" by auto
    have c1: "cell_value s k = Some cv" using c by simp
    have "get_prop (new_snapshot ?m s p) k = get_prop p k"
      using gp[of k] kp snap ns by simp
    then show ?thesis using mutation_emissions[OF u assms(2) c1] r c by simp
  qed
  show ?thesis using snap first gp frame emit by auto
qed

theorem patch_scoping_witness:
  "resolve (Literal [(Name ''a'', Num 1)])
     (frozenState (ComponentStore [(Name ''a'', Num 0), (Name ''b'', Num 0)]))
     = Inr [(Name ''a'', Num 1)] \<and>
   distinct (keys [(Name ''a'', Num 1)]) \<and>
   distinct (keys (snapshot (ComponentStore [(Name ''a'', Num 0), (Name ''b'', Num 0)]))) \<and>
   snapshot (snd (patchState (Literal [(Name ''a'', Num 1)])
      (ComponentStore [(Name ''a'', Num 0), (Name ''b'', Num 0)])))
     = [(Name ''a'', Num 1), (Name ''b'', Num 0)] \<and>
   field_emissions (Name ''a'')
     (emitted (ComponentStore [(Name ''a'', Num 0), (Name ''b'', Num 0)])
        (snd (patchState (Literal [(Name ''a'', Num 1)])
           (ComponentStore [(Name ''a'', Num 0), (Name ''b'', Num 0)])))) = [Num 1] \<and>
   field_emissions (Name ''b'')
     (emitted (ComponentStore [(Name ''a'', Num 0), (Name ''b'', Num 0)])
        (snd (patchState (Literal [(Name ''a'', Num 1)])
           (ComponentStore [(Name ''a'', Num 0), (Name ''b'', Num 0)])))) = [] \<and>
   cell_value (snd (patchState (Literal [(Name ''a'', Num 1)])
      (ComponentStore [(Name ''a'', Num 0), (Name ''b'', Num 0)]))) (Name ''b'') = Some (Num 0)"
proof -
  let ?s = "ComponentStore [(Name ''a'', Num 0), (Name ''b'', Num 0)]"
  let ?p = "[(Name ''a'', Num 1)]"
  let ?s' = "snd (patchState (Literal ?p) ?s)"
  have h1: "resolve (Literal ?p) (frozenState ?s) = Inr ?p" by (simp add: resolve_def)
  have h2: "distinct (keys ?p)" by (simp add: keys_def)
  have h3: "distinct (keys (snapshot ?s))" by (simp add: store_defs)
  note t = patch_scoping[OF h1 h2 h3]
  have sn: "snapshot ?s' = spread (spread [] (snapshot ?s)) ?p" using t by blast
  have sn': "snapshot ?s' = [(Name ''a'', Num 1), (Name ''b'', Num 0)]"
    unfolding sn by (simp add: store_defs)
  have nb: "Name ''b'' \<notin> set (keys ?p)" by (simp add: keys_def)
  have fb: "field_emissions (Name ''b'') (emitted ?s ?s') = []"
    and cb: "cell_value ?s' (Name ''b'') = cell_value ?s (Name ''b'')"
    using t nb by blast+
  have ra: "Name ''a'' \<in> set (reached ?p ?s)" by (simp add: reached_def store_defs)
  have ca: "cell_value ?s (Name ''a'') = Some (Num 0) \<and> strict_neq (get_prop ?p (Name ''a'')) (Num 0)"
    by (simp add: store_defs)
  have fa: "field_emissions (Name ''a'') (emitted ?s ?s') = [get_prop ?p (Name ''a'')]"
    using t ra ca by blast
  have cb0: "cell_value ?s (Name ''b'') = Some (Num 0)" by (simp add: store_defs)
  show ?thesis using h1 h2 h3 sn' fb fa cb cb0 by (simp add: get_prop_def)
qed

section \<open>Updater and setState\<close>

text \<open>
  C4. For every transition function \<open>fn\<close> and payload \<open>p\<close>, the callable returned by
  \<open>updater(fn)\<close>, called with \<open>p\<close>, does exactly what \<open>setState(s => fn(s, p))\<close> does in
  the same store: the same exception or none, the same snapshot, the same field
  subjects and the same events in the same order.
\<close>

theorem updater_eq_setState:
  "updater fn p s = setState (Fn (\<lambda>st. fn st p)) s"
  by (simp add: updater_def setState_def resolve_def)

section \<open>A transition function that throws\<close>

text \<open>
  C5. When the transition function given to \<open>setState\<close>, to \<open>patchState\<close> or to an
  updater throws, the call throws that exception and leaves the store as it was: no
  event is emitted, and the snapshot and the value of every field subject are those
  of before the call.
\<close>

theorem transition_failure_atomic:
  assumes "update_of m s = Inl e"
  shows "apply_mutation m s = (Some e, s) \<and> emitted s (snd (apply_mutation m s)) = []"
  using assms by (simp add: apply_mutation_cases emitted_def)

theorem transition_failure_atomic_witness:
  "update_of (SetState (Fn (\<lambda>st. Inl (Thrown (Str ''boom''))))) (ComponentStore [(Name ''a'', Num 0)])
     = Inl (Thrown (Str ''boom'')) \<and>
   apply_mutation (SetState (Fn (\<lambda>st. Inl (Thrown (Str ''boom''))))) (ComponentStore [(Name ''a'', Num 0)])
     = (Some (Thrown (Str ''boom'')), ComponentStore [(Name ''a'', Num 0)]) \<and>
   emitted (ComponentStore [(Name ''a'', Num 0)])
     (snd (apply_mutation (SetState (Fn (\<lambda>st. Inl (Thrown (Str ''boom'')))))
        (ComponentStore [(Name ''a'', Num 0)]))) = []"
proof -
  have h: "update_of (SetState (Fn (\<lambda>st. Inl (Thrown (Str ''boom''))))) (ComponentStore [(Name ''a'', Num 0)])
     = Inl (Thrown (Str ''boom''))"
    by (simp add: resolve_def)
  show ?thesis using h transition_failure_atomic[OF h] by (simp add: emitted_def)
qed

section \<open>The order of the emissions\<close>

text \<open>
  C6. For every single mutation, \<open>setState\<close>, \<open>patchState\<close> or the callable of an
  updater: when the function of the mutation throws, the call throws that exception
  and nothing is emitted; when it returns an update, the snapshot stream emits the
  new snapshot (the update, or for \<open>patchState\<close> the old snapshot with the update
  spread over it), this emission is the first event of the mutation, and all the
  events after it are emissions of field subjects. So the snapshot stream emits the
  new snapshot before any field subject emits.
\<close>

theorem snapshot_emits_first:
  "(\<forall>e. update_of m s = Inl e \<longrightarrow>
      fst (apply_mutation m s) = Some e \<and> emitted s (snd (apply_mutation m s)) = []) \<and>
   (\<forall>u. update_of m s = Inr u \<longrightarrow>
      snapshot (snd (apply_mutation m s))
        = (case m of PatchState a \<Rightarrow> spread (spread [] (frozenState s)) u | _ \<Rightarrow> u) \<and>
      (\<exists>rest. emitted s (snd (apply_mutation m s))
                = StateNext (snapshot (snd (apply_mutation m s))) # rest \<and>
              (\<forall>e\<in>set rest. is_FieldNext e)))"
proof (intro conjI allI impI)
  fix e assume "update_of m s = Inl e"
  then show "fst (apply_mutation m s) = Some e" by (simp add: apply_mutation_cases)
next
  fix e assume "update_of m s = Inl e"
  then show "emitted s (snd (apply_mutation m s)) = []"
    by (simp add: apply_mutation_cases emitted_def)
next
  fix u assume u: "update_of m s = Inr u"
  show "snapshot (snd (apply_mutation m s))
        = (case m of PatchState a \<Rightarrow> spread (spread [] (frozenState s)) u | _ \<Rightarrow> u)"
    using mutation_snapshot[OF u] by (simp only: new_snapshot_def)
next
  fix u assume u: "update_of m s = Inr u"
  show "\<exists>rest. emitted s (snd (apply_mutation m s))
                = StateNext (snapshot (snd (apply_mutation m s))) # rest \<and>
              (\<forall>e\<in>set rest. is_FieldNext e)"
    using mutation_events[OF u] by (simp only: mutation_snapshot[OF u])
qed

theorem snapshot_emits_first_witness:
  "update_of (SetState (Literal [(Name ''a'', Num 1), (Name ''b'', Num 0)]))
     (ComponentStore [(Name ''a'', Num 0), (Name ''b'', Num 0)])
   = Inr [(Name ''a'', Num 1), (Name ''b'', Num 0)] \<and>
   emitted (ComponentStore [(Name ''a'', Num 0), (Name ''b'', Num 0)])
     (snd (apply_mutation (SetState (Literal [(Name ''a'', Num 1), (Name ''b'', Num 0)]))
        (ComponentStore [(Name ''a'', Num 0), (Name ''b'', Num 0)])))
   = [StateNext [(Name ''a'', Num 1), (Name ''b'', Num 0)], FieldNext (Name ''a'') (Num 1)] \<and>
   update_of (PatchState (Literal [(Name ''b'', Num 2)]))
     (ComponentStore [(Name ''a'', Num 0), (Name ''b'', Num 0)])
   = Inr [(Name ''b'', Num 2)] \<and>
   emitted (ComponentStore [(Name ''a'', Num 0), (Name ''b'', Num 0)])
     (snd (apply_mutation (PatchState (Literal [(Name ''b'', Num 2)]))
        (ComponentStore [(Name ''a'', Num 0), (Name ''b'', Num 0)])))
   = [StateNext [(Name ''a'', Num 0), (Name ''b'', Num 2)], FieldNext (Name ''b'') (Num 2)] \<and>
   update_of (Update (\<lambda>st p. Inr [(Name ''a'', p), (Name ''b'', p)]) (Num 7))
     (ComponentStore [(Name ''a'', Num 0), (Name ''b'', Num 0)])
   = Inr [(Name ''a'', Num 7), (Name ''b'', Num 7)] \<and>
   emitted (ComponentStore [(Name ''a'', Num 0), (Name ''b'', Num 0)])
     (snd (apply_mutation (Update (\<lambda>st p. Inr [(Name ''a'', p), (Name ''b'', p)]) (Num 7))
        (ComponentStore [(Name ''a'', Num 0), (Name ''b'', Num 0)])))
   = [StateNext [(Name ''a'', Num 7), (Name ''b'', Num 7)],
      FieldNext (Name ''a'') (Num 7), FieldNext (Name ''b'') (Num 7)] \<and>
   update_of (SetState (Fn (\<lambda>st. Inl (Thrown (Str ''boom'')))))
     (ComponentStore [(Name ''a'', Num 0), (Name ''b'', Num 0)])
   = Inl (Thrown (Str ''boom'')) \<and>
   emitted (ComponentStore [(Name ''a'', Num 0), (Name ''b'', Num 0)])
     (snd (apply_mutation (SetState (Fn (\<lambda>st. Inl (Thrown (Str ''boom'')))))
        (ComponentStore [(Name ''a'', Num 0), (Name ''b'', Num 0)])))
   = []"
  using
    snapshot_emits_first[of "SetState (Literal [(Name ''a'', Num 1), (Name ''b'', Num 0)])"
      "ComponentStore [(Name ''a'', Num 0), (Name ''b'', Num 0)]"]
    snapshot_emits_first[of "PatchState (Literal [(Name ''b'', Num 2)])"
      "ComponentStore [(Name ''a'', Num 0), (Name ''b'', Num 0)]"]
    snapshot_emits_first[of "Update (\<lambda>st p. Inr [(Name ''a'', p), (Name ''b'', p)]) (Num 7)"
      "ComponentStore [(Name ''a'', Num 0), (Name ''b'', Num 0)]"]
    snapshot_emits_first[of "SetState (Fn (\<lambda>st. Inl (Thrown (Str ''boom''))))"
      "ComponentStore [(Name ''a'', Num 0), (Name ''b'', Num 0)]"]
  by (simp add: store_defs)

section \<open>The input of an effect\<close>

text \<open>
  C7. The claim is that the callable returned by \<open>effect\<close> feeds the effect a stream
  that emits the value once for every value that is not a stream, falsy ones
  included. The code tests the truthiness of the argument: called with \<open>0\<close>, with the
  empty string or with \<open>false\<close>, it feeds the effect \<open>EMPTY\<close>, which emits nothing,
  where \<open>of(0)\<close> would emit \<open>0\<close>.
\<close>

theorem effect_falsy_static_value:
  "effect effectFn (StaticValue (Num 0)) = effectFn EMPTY \<and>
   effect effectFn (StaticValue (Str [])) = effectFn EMPTY \<and>
   effect effectFn (StaticValue (Bool False)) = effectFn EMPTY \<and>
   source_values given (effect (\<lambda>source. source) (StaticValue (Num 0))) = [] \<and>
   source_values given (Of (Num 0)) = [Num 0]"
  by (simp add: effect_def)

section \<open>The named record of streams\<close>



section \<open>The two stores\<close>

text \<open>
  C9. For every initial state and every sequence of the operations that both classes
  have (setState, patchState, updater callables, select with one function, reading
  \<open>state$\<close>, teardown), \<open>CustomStore\<close> and \<open>ComponentStore\<close> give the caller the same
  answers and end in the same store: the same snapshot, the same field subjects and
  the same trace of emissions.
\<close>

theorem two_stores_equivalent:
  "calls CustomStore_call xs (CustomStore init) = calls ComponentStore_call xs (ComponentStore init)"
  by (simp add: CustomStore_eq calls_cong[of CustomStore_call ComponentStore_call] CustomStore_call_eq)

section \<open>An update with an unknown field\<close>

text \<open>
  C10. In a store built from the initial snapshot \<open>init\<close> and taken through any
  mutations, let a mutation compute an update object that has a field \<open>k\<close> which
  \<open>init\<close> does not have. Then the call throws a \<open>TypeError\<close>, after the snapshot
  stream has emitted the new snapshot, which stays the current one: it has the field
  \<open>k\<close>, and there is no subject for \<open>k\<close>.
\<close>

theorem unknown_field_not_atomic:
  assumes "s = run ms (ComponentStore init)"
    and "update_of m s = Inr u" and "k \<in> set (keys u)" and "k \<notin> set (keys init)"
  shows "fst (apply_mutation m s) = Some TypeError \<and>
    (\<exists>rest. emitted s (snd (apply_mutation m s))
              = StateNext (snapshot (snd (apply_mutation m s))) # rest \<and>
            (\<forall>e\<in>set rest. is_FieldNext e)) \<and>
    snapshot (snd (apply_mutation m s)) =
      (case m of PatchState a \<Rightarrow> spread (spread [] (frozenState s)) u | _ \<Rightarrow> u) \<and>
    k \<in> set (keys (snapshot (snd (apply_mutation m s)))) \<and>
    cell_value (snd (apply_mutation m s)) k = None"
proof -
  have tk: "set (keys (state s)) = set (keys init)"
    by (simp add: assms(1) keys_state_run keys_state_ComponentStore)
  then have nk: "k \<notin> set (keys (state s))" using assms(4) by simp
  then have "\<not> set (keys u) \<subseteq> set (keys (state s))" using assms(3) by auto
  then have r: "fst (apply_mutation m s) = Some TypeError"
    by (simp add: mutation_result[OF assms(2)])
  have snap: "snapshot (snd (apply_mutation m s)) = new_snapshot m s u"
    by (rule mutation_snapshot[OF assms(2)])
  have first: "\<exists>rest. emitted s (snd (apply_mutation m s))
              = StateNext (snapshot (snd (apply_mutation m s))) # rest \<and>
            (\<forall>e\<in>set rest. is_FieldNext e)"
    using mutation_events[OF assms(2)] snap by simp
  have kin: "k \<in> set (keys (new_snapshot m s u))"
    using assms(3) by (cases m) (simp_all add: new_snapshot_def)
  have "cell_value (snd (apply_mutation m s)) k = None"
    using nk by (simp add: cell_value_None mutation_keys_state)
  then show ?thesis using r first snap kin
    by (simp add: new_snapshot_def snapshot_frozenState)
qed

theorem unknown_field_not_atomic_witness:
  "ComponentStore [(Name ''a'', Num 0)] = run [] (ComponentStore [(Name ''a'', Num 0)]) \<and>
   update_of (SetState (Literal [(Name ''a'', Num 1), (Name ''zz'', Num 2)]))
     (ComponentStore [(Name ''a'', Num 0)]) = Inr [(Name ''a'', Num 1), (Name ''zz'', Num 2)] \<and>
   Name ''zz'' \<in> set (keys [(Name ''a'', Num 1), (Name ''zz'', Num 2)]) \<and>
   Name ''zz'' \<notin> set (keys [(Name ''a'', Num 0)]) \<and>
   fst (apply_mutation (SetState (Literal [(Name ''a'', Num 1), (Name ''zz'', Num 2)]))
     (ComponentStore [(Name ''a'', Num 0)])) = Some TypeError \<and>
   emitted (ComponentStore [(Name ''a'', Num 0)])
     (snd (apply_mutation (SetState (Literal [(Name ''a'', Num 1), (Name ''zz'', Num 2)]))
        (ComponentStore [(Name ''a'', Num 0)])))
     = [StateNext [(Name ''a'', Num 1), (Name ''zz'', Num 2)], FieldNext (Name ''a'') (Num 1)] \<and>
   snapshot (snd (apply_mutation (SetState (Literal [(Name ''a'', Num 1), (Name ''zz'', Num 2)]))
        (ComponentStore [(Name ''a'', Num 0)])))
     = [(Name ''a'', Num 1), (Name ''zz'', Num 2)] \<and>
   cell_value (snd (apply_mutation (SetState (Literal [(Name ''a'', Num 1), (Name ''zz'', Num 2)]))
        (ComponentStore [(Name ''a'', Num 0)]))) (Name ''zz'') = None"
proof -
  let ?s = "ComponentStore [(Name ''a'', Num 0)]"
  let ?u = "[(Name ''a'', Num 1), (Name ''zz'', Num 2)]"
  let ?m = "SetState (Literal ?u)"
  have h1: "?s = run [] ?s" by simp
  have h2: "update_of ?m ?s = Inr ?u" by (simp add: resolve_def)
  have h3: "Name ''zz'' \<in> set (keys ?u)" by (simp add: keys_def)
  have h4: "Name ''zz'' \<notin> set (keys [(Name ''a'', Num 0)])" by (simp add: keys_def)
  note t = unknown_field_not_atomic[OF h1 h2 h3 h4]
  have r: "fst (apply_mutation ?m ?s) = Some TypeError" using t by blast
  have sn: "snapshot (snd (apply_mutation ?m ?s)) = ?u" using t by simp
  have c: "cell_value (snd (apply_mutation ?m ?s)) (Name ''zz'') = None" using t by blast
  have e: "emitted ?s (snd (apply_mutation ?m ?s)) = [StateNext ?u, FieldNext (Name ''a'') (Num 1)]"
    by (simp add: store_defs)
  show ?thesis using h1 h2 h3 h4 r sn c e by simp
qed

end
